theory Spec2Isabelle
  imports Main "HOL-Library.Word" "HOL-Library.Signed_Division"
begin

unbundle bit_operations_syntax

section \<open>The key interner (compiler/inferring/key.cpp)\<close>

text \<open>
  A \<^verbatim>\<open>Key\<close> wraps one C \<^verbatim>\<open>int\<close>, its \<^verbatim>\<open>id\<close>. The C \<^verbatim>\<open>int\<close> is a 32-bit word
  read in two's complement by \<open>sint\<close>; the hash tables are addressed by an
  \<^verbatim>\<open>unsigned long long\<close>, a 64-bit word.
\<close>

type_synonym c_int = "32 word"
type_synonym hash_t = "64 word"

datatype Key = Key (key_id: c_int)

datatype error =
    AssertFailed      \<comment> \<open>\<^verbatim>\<open>dl_assert\<close> with a false condition\<close>
  | Unreachable       \<comment> \<open>\<^verbatim>\<open>dl_unreachable\<close>\<close>
  | NullDeref         \<comment> \<open>a null or dangling pointer is dereferenced\<close>
  | SignedOverflow    \<comment> \<open>signed \<^verbatim>\<open>int\<close> arithmetic leaves the range of \<^verbatim>\<open>int\<close>\<close>

text \<open>
  Modelled from the spec: \<^verbatim>\<open>TSHashTable<T>\<close> (compiler/threading/hash-table.h is not
  among the sources). \<^verbatim>\<open>at(hash)\<close> returns the node that belongs to \<open>hash\<close>, whose
  \<^verbatim>\<open>data\<close> is \<^verbatim>\<open>nullptr\<close> until something is stored: a table is a function from the
  hash to the node's data, \<open>None\<close> for \<^verbatim>\<open>nullptr\<close>.
\<close>

type_synonym 'a TSHashTable = "hash_t \<Rightarrow> 'a option"

text \<open>The four file-level statics of key.cpp.\<close>

record interner =
  int_keys_ht :: "Key TSHashTable"
  string_keys_ht :: "Key TSHashTable"
  string_key_names_ht :: "string TSHashTable"
  n_string_keys_ht :: c_int

definition init_interner :: interner where
  "init_interner =
     \<lparr>int_keys_ht = (\<lambda>_. None), string_keys_ht = (\<lambda>_. None),
      string_key_names_ht = (\<lambda>_. None), n_string_keys_ht = 0\<rparr>"

definition any_key :: Key where
  "any_key = Key 0"

definition in_int_range :: "int \<Rightarrow> bool" where
  "in_int_range v = (- (2 ^ 31) \<le> v \<and> v \<le> 2 ^ 31 - 1)"

text \<open>
  \<^verbatim>\<open>string_key\<close>, lines 26 to 29: the node of \<^verbatim>\<open>hash_ll(key)\<close> is looked up without the
  lock. \<^verbatim>\<open>hash_ll\<close> is not among the sources and is a parameter.
\<close>

definition string_key_lookup :: "(string \<Rightarrow> hash_t) \<Rightarrow> string \<Rightarrow> interner \<Rightarrow> Key option" where
  "string_key_lookup hash_ll key st = string_keys_ht st (hash_ll key)"

text \<open>
  \<^verbatim>\<open>string_key\<close>, lines 31 to 39, run under the node's lock: the counter is fetched and
  incremented (the atomic add wraps), \<^verbatim>\<open>old_n * 2 + 2\<close> is computed in \<^verbatim>\<open>int\<close>
  (overflow is undefined, hence an error here), the new Key is stored in the node, and
  the name is stored under the Key's id converted to \<^verbatim>\<open>unsigned long long\<close>.
\<close>

definition string_key_create ::
    "(string \<Rightarrow> hash_t) \<Rightarrow> string \<Rightarrow> interner \<Rightarrow> error + Key \<times> interner" where
  "string_key_create hash_ll key st =
     (let old_n = n_string_keys_ht st;
          st1 = st\<lparr>n_string_keys_ht := old_n + 1\<rparr>
      in if \<not> in_int_range (sint old_n * 2) \<or> \<not> in_int_range (sint old_n * 2 + 2)
         then Inl SignedOverflow
         else
           let k = Key (word_of_int (sint old_n * 2 + 2));
               st2 = st1\<lparr>string_keys_ht := (string_keys_ht st1)(hash_ll key \<mapsto> k)\<rparr>;
               name_h = (scast (key_id k) :: hash_t)
           in case string_key_names_ht st2 name_h of
                Some _ \<Rightarrow> Inl AssertFailed
              | None \<Rightarrow>
                  Inr (k, st2\<lparr>string_key_names_ht := (string_key_names_ht st2)(name_h \<mapsto> key)\<rparr>))"

definition string_key ::
    "(string \<Rightarrow> hash_t) \<Rightarrow> string \<Rightarrow> interner \<Rightarrow> error + Key \<times> interner" where
  "string_key hash_ll key st =
     (case string_key_lookup hash_ll key st of
        Some k \<Rightarrow> Inr (k, st)
      | None \<Rightarrow> string_key_create hash_ll key st)"

text \<open>
  \<^verbatim>\<open>int_key\<close>: the node of \<^verbatim>\<open>(unsigned int)key\<close>, zero-extended to the table's hash
  type; a new Key has the id \<^verbatim>\<open>(unsigned int)key * 2 + 1\<close>, computed modulo \<open>2^32\<close>.
\<close>

definition int_key_lookup :: "c_int \<Rightarrow> interner \<Rightarrow> Key option" where
  "int_key_lookup key st = int_keys_ht st (ucast key)"

definition int_key_create :: "c_int \<Rightarrow> interner \<Rightarrow> Key \<times> interner" where
  "int_key_create key st =
     (let k = Key (key * 2 + 1)
      in (k, st\<lparr>int_keys_ht := (int_keys_ht st)(ucast key \<mapsto> k)\<rparr>))"

definition int_key :: "c_int \<Rightarrow> interner \<Rightarrow> Key \<times> interner" where
  "int_key key st =
     (case int_key_lookup key st of
        Some k \<Rightarrow> (k, st)
      | None \<Rightarrow> int_key_create key st)"










subsection \<open>Sequences of interner calls\<close>

text \<open>
  The three static factory functions, as requests, and a caller that issues requests one
  after another on one thread. The first error ends the run, as the fatal assertion
  would end the process.
\<close>

datatype key_call = AnyKey | IntKey c_int | StringKey string

fun call_key :: "(string \<Rightarrow> hash_t) \<Rightarrow> key_call \<Rightarrow> interner \<Rightarrow> error + Key \<times> interner" where
  "call_key hash_ll AnyKey st = Inr (any_key, st)"
| "call_key hash_ll (IntKey i) st = Inr (int_key i st)"
| "call_key hash_ll (StringKey s) st = string_key hash_ll s st"

fun call_keys :: "(string \<Rightarrow> hash_t) \<Rightarrow> key_call list \<Rightarrow> interner \<Rightarrow> error + Key list \<times> interner" where
  "call_keys hash_ll [] st = Inr ([], st)"
| "call_keys hash_ll (c # cs) st =
     (case call_key hash_ll c st of
        Inl e \<Rightarrow> Inl e
      | Inr (k, st') \<Rightarrow>
          (case call_keys hash_ll cs st' of
             Inl e \<Rightarrow> Inl e
           | Inr (ks, st'') \<Rightarrow> Inr (k # ks, st'')))"

definition call_kind :: "key_call \<Rightarrow> nat" where
  "call_kind c = (case c of AnyKey \<Rightarrow> 0 | IntKey _ \<Rightarrow> 1 | StringKey _ \<Rightarrow> 2)"

text \<open>
  What every state the interner reaches satisfies: the counter is not negative; a cached
  string key has an even id from 2 up to the counter's next id, and a name; two hashes
  never share a string key; the name table holds names only under such ids; and the
  integer key cached for \<open>i\<close> has the id \<open>i * 2 + 1\<close>.
\<close>

definition interner_inv :: "interner \<Rightarrow> bool" where
  "interner_inv st =
     (0 \<le> sint (n_string_keys_ht st)
      \<and> (\<forall>h k. string_keys_ht st h = Some k \<longrightarrow>
            even (sint (key_id k)) \<and> 2 \<le> sint (key_id k)
            \<and> sint (key_id k) < sint (n_string_keys_ht st) * 2 + 2
            \<and> string_key_names_ht st (scast (key_id k)) \<noteq> None)
      \<and> (\<forall>h h' k. string_keys_ht st h = Some k \<longrightarrow> string_keys_ht st h' = Some k \<longrightarrow> h = h')
      \<and> (\<forall>x name. string_key_names_ht st x = Some name \<longrightarrow>
            2 \<le> sint x \<and> sint x < sint (n_string_keys_ht st) * 2 + 2)
      \<and> (\<forall>i k. int_keys_ht st (ucast i) = Some k \<longrightarrow> key_id k = i * 2 + 1))"

section \<open>The flags of a TypeData node (compiler/inferring/type-data.h)\<close>

text \<open>
  \<^verbatim>\<open>flags_t\<close> is \<^verbatim>\<open>unsigned long\<close>, a 64-bit word. \<^verbatim>\<open>generation_t\<close> is \<^verbatim>\<open>long\<close>; the
  code here only assigns and compares generations, so it is an integer.
\<close>

type_synonym flags_t = "64 word"
type_synonym generation_t = int

text \<open>The enumeration \<^verbatim>\<open>flag_id_t\<close> and the bit each of its members stands for.\<close>

datatype flag_id_t = write_flag_e | read_flag_e | or_false_flag_e | error_flag_e

fun flag_bit :: "flag_id_t \<Rightarrow> flags_t" where
  "flag_bit write_flag_e = 1"
| "flag_bit read_flag_e = 2"
| "flag_bit or_false_flag_e = 4"
| "flag_bit error_flag_e = 8"

text \<open>
  The data members of \<^verbatim>\<open>TypeData\<close> (the source names end in an underscore, which a
  constant here cannot). \<^verbatim>\<open>PrimitiveType\<close> and \<^verbatim>\<open>ClassPtr\<close> are declared outside the
  sources and are type parameters. A \<^verbatim>\<open>TypeData *\<close> is an index into the list of all
  nodes, \<open>None\<close> for \<^verbatim>\<open>nullptr\<close>; an index beyond the list is a dangling pointer.
  \<^verbatim>\<open>current_generation_\<close> is the static of the running thread.
\<close>

record ('p, 'c) TypeData =
  ptype :: 'p
  class_type :: "'c option"
  flags :: flags_t
  generation :: generation_t
  parent :: "nat option"
  anykey_value :: "nat option"
  subkeys_values :: "(Key \<times> nat) list"

record ('p, 'c) type_heap =
  nodes :: "('p, 'c) TypeData list"
  current_generation :: generation_t

text \<open>\<^verbatim>\<open>get_flag<FLAG>()\<close> is \<^verbatim>\<open>flags_ & FLAG\<close>, converted to \<^verbatim>\<open>bool\<close>.\<close>

definition get_flag :: "flag_id_t \<Rightarrow> ('p, 'c) TypeData \<Rightarrow> bool" where
  "get_flag FLAG n = (flags n AND flag_bit FLAG \<noteq> 0)"

text \<open>The statement \<^verbatim>\<open>flags_ |= FLAG\<close> on the node \<open>this\<close>.\<close>

definition or_flag :: "flag_id_t \<Rightarrow> nat \<Rightarrow> ('p, 'c) type_heap \<Rightarrow> ('p, 'c) type_heap" where
  "or_flag FLAG this st =
     st\<lparr>nodes := (nodes st)[this := (nodes st ! this)\<lparr>flags := flags (nodes st ! this) OR flag_bit FLAG\<rparr>]\<rparr>"

text \<open>
  Modelled from the spec: \<^verbatim>\<open>on_changed()\<close> is declared in type-data.h and defined outside
  the sources. It advances the node's generation stamp to the current global generation
  value.
\<close>

definition on_changed :: "nat \<Rightarrow> ('p, 'c) type_heap \<Rightarrow> ('p, 'c) type_heap" where
  "on_changed this st =
     st\<lparr>nodes := (nodes st)[this := (nodes st ! this)\<lparr>generation := current_generation st\<rparr>]\<rparr>"

text \<open>
  The primary template \<^verbatim>\<open>set_flag<FLAG>(bool f)\<close>, lines 144 to 153: clearing a set flag
  fails the assertion; setting an unset flag writes it and calls \<^verbatim>\<open>on_changed()\<close>.
\<close>

definition set_flag_generic ::
    "flag_id_t \<Rightarrow> bool \<Rightarrow> nat \<Rightarrow> ('p, 'c) type_heap \<Rightarrow> error + ('p, 'c) type_heap" where
  "set_flag_generic FLAG f this st =
     (if \<not> this < length (nodes st) then Inl NullDeref
      else
        let old_f = get_flag FLAG (nodes st ! this)
        in if old_f then (if f then Inr st else Inl AssertFailed)
           else if f then Inr (on_changed this (or_flag FLAG this st))
           else Inr st)"

text \<open>
  The specialisation for \<^verbatim>\<open>error_flag_e\<close> calls itself on the parent. Each call that goes
  on has just set the error flag of a node that did not have it, so the number of nodes
  without the flag is a measure of the recursion, whatever the shape of the parent
  pointers (a cycle included).
\<close>

definition unset_count :: "('p, 'c) type_heap \<Rightarrow> nat" where
  "unset_count st = length (filter (\<lambda>n. \<not> get_flag error_flag_e n) (nodes st))"

lemma get_flag_or:
  "get_flag F (n\<lparr>flags := flags n OR flag_bit G\<rparr>) = (get_flag F n \<or> F = G)"
  by (cases F; cases G; simp add: get_flag_def bit.conj_disj_distrib2 or_eq_0_iff)

lemma filter_update_less:
  "i < length xs \<Longrightarrow> P (xs ! i) \<Longrightarrow> \<not> P y \<Longrightarrow> length (filter P (xs[i := y])) < length (filter P xs)"
proof (induction xs arbitrary: i)
  case Nil then show ?case by simp
next
  case (Cons x xs)
  show ?case
  proof (cases i)
    case 0
    with Cons.prems show ?thesis by (simp add: less_Suc_eq_le)
  next
    case (Suc j)
    with Cons.prems Cons.IH [of j] show ?thesis by simp
  qed
qed

lemma unset_count_or_flag:
  "this < length (nodes st) \<Longrightarrow> \<not> get_flag error_flag_e (nodes st ! this)
     \<Longrightarrow> unset_count (or_flag error_flag_e this st) < unset_count st"
proof -
  assume a: "this < length (nodes st)" and b: "\<not> get_flag error_flag_e (nodes st ! this)"
  let ?y = "(nodes st ! this)\<lparr>flags := flags (nodes st ! this) OR flag_bit error_flag_e\<rparr>"
  have "\<not> \<not> get_flag error_flag_e ?y" by (simp only: get_flag_or) simp
  with a b have "length (filter (\<lambda>n. \<not> get_flag error_flag_e n) ((nodes st)[this := ?y]))
      < length (filter (\<lambda>n. \<not> get_flag error_flag_e n) (nodes st))"
    by (intro filter_update_less)
  then show ?thesis by (simp add: unset_count_def or_flag_def)
qed

text \<open>
  The specialisation \<^verbatim>\<open>set_flag<error_flag_e>(bool f)\<close>, lines 155 to 165. The predicate
  \<^verbatim>\<open>should_proxy_error_flag_to_parent()\<close> is declared in type-data.h and defined outside
  the sources: it is a parameter that may read the whole heap, asked after the flag of
  \<open>this\<close> is written and only when the parent is not null. There is no assertion and no
  call of \<^verbatim>\<open>on_changed()\<close> in this specialisation.
\<close>

function set_flag_error ::
    "(('p, 'c) type_heap \<Rightarrow> nat \<Rightarrow> bool) \<Rightarrow> bool \<Rightarrow> nat \<Rightarrow> ('p, 'c) type_heap
      \<Rightarrow> error + ('p, 'c) type_heap" where
  "set_flag_error should_proxy_error_flag_to_parent f this st =
     (if f then
        (if \<not> this < length (nodes st) then Inl NullDeref
         else if \<not> get_flag error_flag_e (nodes st ! this) then
           (case parent (nodes st ! this) of
              None \<Rightarrow> Inr (or_flag error_flag_e this st)
            | Some p \<Rightarrow>
                if should_proxy_error_flag_to_parent (or_flag error_flag_e this st) this
                then set_flag_error should_proxy_error_flag_to_parent True p
                       (or_flag error_flag_e this st)
                else Inr (or_flag error_flag_e this st))
         else Inr st)
      else Inr st)"
  by pat_completeness auto
termination
  by (relation "measure (\<lambda>(proxy, f, this, st). unset_count st)")
     (auto simp: unset_count_or_flag)

declare set_flag_error.simps [simp del]

text \<open>
  Template instantiation: \<^verbatim>\<open>set_flag<FLAG>\<close> is the specialisation for \<^verbatim>\<open>error_flag_e\<close>
  and the primary template otherwise. The public setters \<^verbatim>\<open>set_write_flag\<close>,
  \<^verbatim>\<open>set_read_flag\<close>, \<^verbatim>\<open>set_or_false_flag\<close> and \<^verbatim>\<open>set_error_flag\<close> are its four
  instances.
\<close>

definition set_flag ::
    "(('p, 'c) type_heap \<Rightarrow> nat \<Rightarrow> bool) \<Rightarrow> flag_id_t \<Rightarrow> bool \<Rightarrow> nat \<Rightarrow> ('p, 'c) type_heap
      \<Rightarrow> error + ('p, 'c) type_heap" where
  "set_flag should_proxy_error_flag_to_parent FLAG f this st =
     (if FLAG = error_flag_e then set_flag_error should_proxy_error_flag_to_parent f this st
      else set_flag_generic FLAG f this st)"

text \<open>
  A sequence of setter calls on nodes of one heap; the first fatal assertion ends it.
\<close>

datatype flag_op = SetFlag flag_id_t bool nat

fun apply_op ::
    "(('p, 'c) type_heap \<Rightarrow> nat \<Rightarrow> bool) \<Rightarrow> flag_op \<Rightarrow> ('p, 'c) type_heap
      \<Rightarrow> error + ('p, 'c) type_heap" where
  "apply_op proxy (SetFlag FLAG f this) st = set_flag proxy FLAG f this st"

fun apply_ops ::
    "(('p, 'c) type_heap \<Rightarrow> nat \<Rightarrow> bool) \<Rightarrow> flag_op list \<Rightarrow> ('p, 'c) type_heap
      \<Rightarrow> error + ('p, 'c) type_heap" where
  "apply_ops proxy [] st = Inr st"
| "apply_ops proxy (op # ops) st =
     (case apply_op proxy op st of Inl e \<Rightarrow> Inl e | Inr st' \<Rightarrow> apply_ops proxy ops st')"

text \<open>
  Two relations between a heap and a later one: every node is as before or has gained the
  error bit and nothing else; and no node has lost a flag.
\<close>

definition error_only :: "('p, 'c) type_heap \<Rightarrow> ('p, 'c) type_heap \<Rightarrow> bool" where
  "error_only st st' =
     (current_generation st' = current_generation st
      \<and> length (nodes st') = length (nodes st)
      \<and> (\<forall>b < length (nodes st).
            nodes st' ! b = nodes st ! b
            \<or> nodes st' ! b = (nodes st ! b)\<lparr>flags := flags (nodes st ! b) OR flag_bit error_flag_e\<rparr>))"

definition flags_kept :: "('p, 'c) type_heap \<Rightarrow> ('p, 'c) type_heap \<Rightarrow> bool" where
  "flags_kept st st' =
     (length (nodes st') = length (nodes st)
      \<and> (\<forall>b < length (nodes st). \<forall>F. get_flag F (nodes st ! b) \<longrightarrow> get_flag F (nodes st' ! b)))"

text \<open>No parent pointer dangles.\<close>

definition parents_valid :: "('p, 'c) type_heap \<Rightarrow> bool" where
  "parents_valid st =
     (\<forall>b < length (nodes st). \<forall>p. parent (nodes st ! b) = Some p \<longrightarrow> p < length (nodes st))"

text \<open>No generation stamp is ahead of the current generation.\<close>

definition stamps_behind :: "('p, 'c) type_heap \<Rightarrow> bool" where
  "stamps_behind st =
     (\<forall>b < length (nodes st). generation (nodes st ! b) \<le> current_generation st)"

text \<open>A heap of two fresh nodes, the first a child of the second, at generation 5.\<close>

definition leaf_node :: "nat option \<Rightarrow> (nat, nat) TypeData" where
  "leaf_node par =
     \<lparr>ptype = 0, class_type = None, flags = 0, generation = 0, parent = par,
      anykey_value = None, subkeys_values = []\<rparr>"

definition two_node_heap :: "(nat, nat) type_heap" where
  "two_node_heap = \<lparr>nodes = [leaf_node (Some 1), leaf_node None], current_generation = 5\<rparr>"

section \<open>Interner calls from several threads\<close>

text \<open>
  A call of \<^verbatim>\<open>string_key\<close> or \<^verbatim>\<open>int_key\<close> by a thread takes two steps on the shared
  statics: the lookup of the node, read without the lock (lines 26 to 29, and 43 to 46),
  and, when the node was empty, the creation under the node's lock (lines 31 to 39, and
  48 to 50). Between the two steps of one thread any other thread may take steps. The
  locked region is one step: the lock excludes the other creations on the same node.
  A thread is where it stands in its call.
\<close>

datatype thread =
    StringKeyEntry string     \<comment> \<open>\<^verbatim>\<open>string_key(key)\<close> entered\<close>
  | StringKeyAtLock string    \<comment> \<open>\<^verbatim>\<open>node->data\<close> was null, about to take the lock\<close>
  | IntKeyEntry c_int         \<comment> \<open>\<^verbatim>\<open>int_key(key)\<close> entered\<close>
  | IntKeyAtLock c_int        \<comment> \<open>\<^verbatim>\<open>node->data\<close> was null, about to take the lock\<close>
  | Returned Key
  | Failed error

fun thread_step :: "(string \<Rightarrow> hash_t) \<Rightarrow> thread \<Rightarrow> interner \<Rightarrow> thread \<times> interner" where
  "thread_step hash_ll (StringKeyEntry key) st =
     (case string_key_lookup hash_ll key st of
        Some k \<Rightarrow> (Returned k, st)
      | None \<Rightarrow> (StringKeyAtLock key, st))"
| "thread_step hash_ll (StringKeyAtLock key) st =
     (case string_key_create hash_ll key st of
        Inl e \<Rightarrow> (Failed e, st)
      | Inr (k, st') \<Rightarrow> (Returned k, st'))"
| "thread_step hash_ll (IntKeyEntry key) st =
     (case int_key_lookup key st of
        Some k \<Rightarrow> (Returned k, st)
      | None \<Rightarrow> (IntKeyAtLock key, st))"
| "thread_step hash_ll (IntKeyAtLock key) st =
     (case int_key_create key st of (k, st') \<Rightarrow> (Returned k, st'))"
| "thread_step hash_ll (Returned k) st = (Returned k, st)"
| "thread_step hash_ll (Failed e) st = (Failed e, st)"

text \<open>One step of thread \<open>t\<close>, and a schedule: the threads that step, in order.\<close>

fun sched_step ::
    "(string \<Rightarrow> hash_t) \<Rightarrow> nat \<Rightarrow> thread list \<times> interner \<Rightarrow> thread list \<times> interner" where
  "sched_step hash_ll t (ths, st) =
     (if t < length ths
      then (case thread_step hash_ll (ths ! t) st of (th', st') \<Rightarrow> (ths[t := th'], st'))
      else (ths, st))"

fun run_schedule ::
    "(string \<Rightarrow> hash_t) \<Rightarrow> nat list \<Rightarrow> thread list \<times> interner \<Rightarrow> thread list \<times> interner" where
  "run_schedule hash_ll [] c = c"
| "run_schedule hash_ll (t # ts) c = run_schedule hash_ll ts (sched_step hash_ll t c)"

section \<open>The lattice join \<^verbatim>\<open>set_lca\<close>\<close>

text \<open>
  type-data.h declares \<^verbatim>\<open>set_lca\<close> (line 121); its body, \<^verbatim>\<open>type_lca\<close> on
  \<^verbatim>\<open>PrimitiveType\<close>, the class hierarchy and the comparison of Keys are outside the
  sources. This section follows the specification's description of the join.
\<close>

text \<open>
  Modelled from the spec: a TypeData value with the children it owns, as a tree: the
  primitive-type tag, the optional class, the flags, the generation stamp, the optional
  any-index child and the key-ordered collection of keyed children. The parent
  back-reference owns nothing and is left out.
\<close>

datatype ('p, 'c) type_node =
  TypeNode (tag: 'p) (cls: "'c option") (node_flags: flags_t) (stamp: generation_t)
    (any_child: "('p, 'c) type_node option") (keyed: "(Key \<times> ('p, 'c) type_node) list")

text \<open>
  Modelled from the spec: the order of Keys in the keyed collection (\<^verbatim>\<open>operator<\<close> of
  key.h, not among the sources), the order of their ids.
\<close>

definition key_less :: "Key \<Rightarrow> Key \<Rightarrow> bool" where
  "key_less a b = (sint (key_id a) < sint (key_id b))"

text \<open>
  Modelled from the spec: the two tables the join is built on, which the specification
  leaves to the implementer: the join of two primitive tags, and the common ancestor of
  two class references (cleared when there is none).
\<close>

record ('p, 'c) lattice =
  type_lca :: "'p \<Rightarrow> 'p \<Rightarrow> 'p"
  class_lca :: "'c option \<Rightarrow> 'c option \<Rightarrow> 'c option"

text \<open>
  Modelled from the spec: the flags of \<open>rhs\<close> that take part in the join; the or_false
  flag only when \<open>save_or_false\<close> is true.
\<close>

definition rhs_flags :: "bool \<Rightarrow> flags_t \<Rightarrow> flags_t" where
  "rhs_flags save_or_false fl =
     (if save_or_false then fl else fl AND NOT (flag_bit or_false_flag_e))"

text \<open>
  Modelled from the spec: \<^verbatim>\<open>set_lca(rhs, save_or_false)\<close> merges \<open>rhs\<close> into the node.
  The tag becomes the join of the two tags, the class the common ancestor, the flags the
  bitwise or; the any-index children of both sides are joined; the keyed children are
  joined key by key, and a key present only in \<open>rhs\<close> is cloned into the node. A node
  whose state changed is stamped with the current generation.
\<close>

fun set_lca ::
    "('p, 'c) lattice \<Rightarrow> generation_t \<Rightarrow> bool \<Rightarrow> ('p, 'c) type_node \<Rightarrow> ('p, 'c) type_node
      \<Rightarrow> ('p, 'c) type_node"
  and set_lca_any ::
    "('p, 'c) lattice \<Rightarrow> generation_t \<Rightarrow> bool \<Rightarrow> ('p, 'c) type_node option
      \<Rightarrow> ('p, 'c) type_node option \<Rightarrow> ('p, 'c) type_node option"
  and set_lca_keyed ::
    "('p, 'c) lattice \<Rightarrow> generation_t \<Rightarrow> bool \<Rightarrow> (Key \<times> ('p, 'c) type_node) list
      \<Rightarrow> (Key \<times> ('p, 'c) type_node) list \<Rightarrow> (Key \<times> ('p, 'c) type_node) list" where
  "set_lca L cur save_or_false (TypeNode p c fl g a ks) (TypeNode p' c' fl' g' a' ks') =
     (let new_p = type_lca L p p';
          new_c = class_lca L c c';
          new_fl = fl OR rhs_flags save_or_false fl';
          new_a = set_lca_any L cur save_or_false a a';
          new_ks = set_lca_keyed L cur save_or_false ks ks';
          changed = (new_p \<noteq> p \<or> new_c \<noteq> c \<or> new_fl \<noteq> fl \<or> new_a \<noteq> a \<or> new_ks \<noteq> ks)
      in TypeNode new_p new_c new_fl (if changed then cur else g) new_a new_ks)"
| "set_lca_any L cur save_or_false None None = None"
| "set_lca_any L cur save_or_false (Some x) None = Some x"
| "set_lca_any L cur save_or_false None (Some y) = Some y"
| "set_lca_any L cur save_or_false (Some x) (Some y) = Some (set_lca L cur save_or_false x y)"
| "set_lca_keyed L cur save_or_false [] ys = ys"
| "set_lca_keyed L cur save_or_false (x # xs) [] = x # xs"
| "set_lca_keyed L cur save_or_false ((k, x) # xs) ((k', y) # ys) =
     (if key_less k k' then (k, x) # set_lca_keyed L cur save_or_false xs ((k', y) # ys)
      else if key_less k' k then (k', y) # set_lca_keyed L cur save_or_false ((k, x) # xs) ys
      else (k, set_lca L cur save_or_false x y) # set_lca_keyed L cur save_or_false xs ys)"


text \<open>
  Two nodes are structurally equal when they agree once every generation stamp is erased.
\<close>

primrec erase_stamps :: "('p, 'c) type_node \<Rightarrow> ('p, 'c) type_node" where
  "erase_stamps (TypeNode p c fl g a ks) =
     TypeNode p c fl 0 (map_option erase_stamps a) (map (map_prod id erase_stamps) ks)"

definition erase_keyed :: "(Key \<times> ('p, 'c) type_node) list \<Rightarrow> (Key \<times> ('p, 'c) type_node) list" where
  "erase_keyed ks = map (map_prod id erase_stamps) ks"

text \<open>The two tables are joins: idempotent and commutative.\<close>

definition lattice_ok :: "('p, 'c) lattice \<Rightarrow> bool" where
  "lattice_ok L =
     ((\<forall>p. type_lca L p p = p) \<and> (\<forall>p q. type_lca L p q = type_lca L q p)
      \<and> (\<forall>c. class_lca L c c = c) \<and> (\<forall>c d. class_lca L c d = class_lca L d c))"

text \<open>A sample instance: tags ordered as numbers, classes with no relation between them.\<close>

definition max_lattice :: "(nat, nat) lattice" where
  "max_lattice = \<lparr>type_lca = max, class_lca = (\<lambda>c d. if c = d then c else None)\<rparr>"

subsection \<open>Facts about the interner\<close>

lemma even_sint_iff: "even (sint (w :: c_int)) = even w"
  using bit_sint_iff [of w 0] by (simp add: bit_0)

lemma sint_word_of_int_in_range: "in_int_range v \<Longrightarrow> sint (word_of_int v :: c_int) = v"
  by (simp add: in_int_range_def sint_sbintrunc' signed_take_bit_int_eq_self)

lemma sint_scast_id: "sint (scast (a :: c_int) :: hash_t) = sint a"
  by (simp add: sint_up_scast is_up)

lemma uint_ucast_id: "uint (ucast (a :: c_int) :: hash_t) = uint a"
  by (simp add: uint_up_ucast is_up)

lemma ucast_hash_inj: "(ucast (a :: c_int) :: hash_t) = ucast b \<Longrightarrow> a = b"
proof -
  assume "(ucast a :: hash_t) = ucast b"
  then have "uint (ucast a :: hash_t) = uint (ucast b :: hash_t)" by simp
  then show "a = b" by (simp add: uint_ucast_id word_uint_eqI)
qed

lemma sint_counter_Suc:
  "0 \<le> sint (n :: c_int) \<Longrightarrow> in_int_range (sint n * 2 + 2) \<Longrightarrow> sint (n + 1) = sint n + 1"
  by (simp add: in_int_range_def sint_word_ariths signed_take_bit_int_eq_self)

lemma interner_inv_init: "interner_inv init_interner"
  by (simp add: interner_inv_def init_interner_def)


lemma sint_fresh_id:
  "in_int_range (sint (n :: c_int) * 2 + 2) \<Longrightarrow> sint (n * 2 + 2) = sint n * 2 + 2"
proof -
  assume r: "in_int_range (sint n * 2 + 2)"
  have "n * 2 + 2 = word_of_int (sint n * 2 + 2)" by simp
  then show ?thesis using sint_word_of_int_in_range [OF r] by simp
qed

lemma string_key_create_result:
  assumes "string_key_create H s st = Inr (k, st')"
  shows "sint (key_id k) = sint (n_string_keys_ht st) * 2 + 2"
    and "st' = st\<lparr>n_string_keys_ht := n_string_keys_ht st + 1,
                  string_keys_ht := (string_keys_ht st)(H s \<mapsto> k),
                  string_key_names_ht := (string_key_names_ht st)(scast (key_id k) \<mapsto> s)\<rparr>"
    and "in_int_range (sint (n_string_keys_ht st) * 2 + 2)"
    and "string_key_names_ht st (scast (key_id k)) = None"
  using assms
  by (auto simp: string_key_create_def Let_def sint_fresh_id split: if_splits option.splits)

lemma string_key_create_succeeds:
  assumes "interner_inv st" and "sint (n_string_keys_ht st) < 2 ^ 30 - 1"
  shows "\<exists>k st'. string_key_create H s st = Inr (k, st')"
proof -
  let ?n = "n_string_keys_ht st"
  from assms have n0: "0 \<le> sint ?n" by (simp add: interner_inv_def)
  with assms(2) have r1: "in_int_range (sint ?n * 2)" and r2: "in_int_range (sint ?n * 2 + 2)"
    by (simp_all add: in_int_range_def)
  have "string_key_names_ht st (scast (?n * 2 + 2)) = None"
  proof (cases "string_key_names_ht st (scast (?n * 2 + 2))")
    case None then show ?thesis .
  next
    case (Some name)
    with assms(1) have "sint (scast (?n * 2 + 2) :: hash_t) < sint ?n * 2 + 2"
      unfolding interner_inv_def by blast
    then show ?thesis by (simp add: sint_scast_id sint_fresh_id [OF r2])
  qed
  with r1 r2 show ?thesis
    by (simp add: string_key_create_def Let_def)
qed

lemma string_key_create_inv:
  assumes inv: "interner_inv st" and c: "string_key_create H s st = Inr (k, st')"
    and fresh: "string_keys_ht st (H s) = None"
  shows "interner_inv st'"
proof -
  let ?n = "n_string_keys_ht st"
  note r = string_key_create_result [OF c]
  from inv have n0: "0 \<le> sint ?n" by (simp add: interner_inv_def)
  have n1: "sint (?n + 1) = sint ?n + 1" using n0 r(3) by (rule sint_counter_Suc)
  have kid: "sint (key_id k) = sint ?n * 2 + 2" by (rule r(1))
  have old_lt: "sint (key_id k0) < sint ?n * 2 + 2" if "string_keys_ht st h = Some k0" for h k0
    using inv that unfolding interner_inv_def by blast
  have k_new: "k0 \<noteq> k" if "string_keys_ht st h = Some k0" for h k0
    using old_lt [OF that] kid by auto
  have name_new: "x \<noteq> scast (key_id k)" if "string_key_names_ht st x = Some name" for x name
  proof
    assume "x = scast (key_id k)"
    then have "sint x = sint ?n * 2 + 2" by (simp add: sint_scast_id kid)
    moreover from inv that have "sint x < sint ?n * 2 + 2" unfolding interner_inv_def by blast
    ultimately show False by simp
  qed
  show ?thesis
    unfolding interner_inv_def
  proof (intro conjI allI impI)
    show "0 \<le> sint (n_string_keys_ht st')" using n0 n1 by (simp add: r(2))
  next
    fix h k0 assume a: "string_keys_ht st' h = Some k0"
    show "even (sint (key_id k0))"
    proof (cases "h = H s")
      case True with a have "k0 = k" by (simp add: r(2))
      then show ?thesis by (simp add: kid)
    next
      case False with a have "string_keys_ht st h = Some k0" by (simp add: r(2))
      with inv show ?thesis unfolding interner_inv_def by blast
    qed
    show "2 \<le> sint (key_id k0)"
    proof (cases "h = H s")
      case True with a have "k0 = k" by (simp add: r(2))
      then show ?thesis using n0 by (simp add: kid)
    next
      case False with a have "string_keys_ht st h = Some k0" by (simp add: r(2))
      with inv show ?thesis unfolding interner_inv_def by blast
    qed
    show "sint (key_id k0) < sint (n_string_keys_ht st') * 2 + 2"
    proof (cases "h = H s")
      case True with a have "k0 = k" by (simp add: r(2))
      then show ?thesis by (simp add: kid r(2) n1)
    next
      case False with a have "string_keys_ht st h = Some k0" by (simp add: r(2))
      from old_lt [OF this] show ?thesis by (simp add: r(2) n1)
    qed
    show "string_key_names_ht st' (scast (key_id k0)) \<noteq> None"
    proof (cases "h = H s")
      case True with a have "k0 = k" by (simp add: r(2))
      then show ?thesis by (simp add: r(2))
    next
      case False with a have "string_keys_ht st h = Some k0" by (simp add: r(2))
      with inv have "string_key_names_ht st (scast (key_id k0)) \<noteq> None"
        unfolding interner_inv_def by blast
      then show ?thesis by (simp add: r(2))
    qed
  next
    fix h h' k0
    assume a: "string_keys_ht st' h = Some k0" and b: "string_keys_ht st' h' = Some k0"
    show "h = h'"
    proof (cases "h = H s")
      case True
      with a have k0: "k0 = k" by (simp add: r(2))
      show ?thesis
      proof (cases "h' = H s")
        case True with \<open>h = H s\<close> show ?thesis by simp
      next
        case False
        with b have "string_keys_ht st h' = Some k0" by (simp add: r(2))
        from k_new [OF this] k0 show ?thesis by simp
      qed
    next
      case False
      with a have a': "string_keys_ht st h = Some k0" by (simp add: r(2))
      show ?thesis
      proof (cases "h' = H s")
        case True
        with b have "k0 = k" by (simp add: r(2))
        with k_new [OF a'] show ?thesis by simp
      next
        case False
        with b have "string_keys_ht st h' = Some k0" by (simp add: r(2))
        with inv a' show ?thesis unfolding interner_inv_def by blast
      qed
    qed
  next
    fix x name assume a: "string_key_names_ht st' x = Some name"
    show "2 \<le> sint x"
    proof (cases "x = scast (key_id k)")
      case True then show ?thesis using n0 by (simp add: sint_scast_id kid)
    next
      case False with a have "string_key_names_ht st x = Some name" by (simp add: r(2))
      with inv show ?thesis unfolding interner_inv_def by blast
    qed
    show "sint x < sint (n_string_keys_ht st') * 2 + 2"
    proof (cases "x = scast (key_id k)")
      case True then show ?thesis by (simp add: sint_scast_id kid r(2) n1)
    next
      case False with a have "string_key_names_ht st x = Some name" by (simp add: r(2))
      with inv have "sint x < sint ?n * 2 + 2" unfolding interner_inv_def by blast
      then show ?thesis by (simp add: r(2) n1)
    qed
  next
    fix i :: c_int and k0 assume "int_keys_ht st' (ucast i) = Some k0"
    then have "int_keys_ht st (ucast i) = Some k0" by (simp add: r(2))
    with inv show "key_id k0 = i * 2 + 1" unfolding interner_inv_def by blast
  qed
qed


lemma string_key_inv:
  assumes "interner_inv st" and "string_key H s st = Inr (k, st')"
  shows "interner_inv st'"
proof (cases "string_keys_ht st (H s)")
  case None
  with assms(2) have "string_key_create H s st = Inr (k, st')"
    by (simp add: string_key_def string_key_lookup_def)
  with assms(1) show ?thesis using None by (rule string_key_create_inv)
next
  case (Some k0)
  with assms show ?thesis by (simp add: string_key_def string_key_lookup_def)
qed

lemma string_key_cached:
  assumes "string_key H s st = Inr (k, st')"
  shows "string_keys_ht st' (H s) = Some k"
    and "string_keys_ht st h = Some k0 \<Longrightarrow> string_keys_ht st' h = Some k0"
proof -
  show "string_keys_ht st' (H s) = Some k"
  proof (cases "string_keys_ht st (H s)")
    case None
    with assms have "string_key_create H s st = Inr (k, st')"
      by (simp add: string_key_def string_key_lookup_def)
    from string_key_create_result(2) [OF this] show ?thesis by simp
  next
    case (Some k1)
    with assms show ?thesis by (simp add: string_key_def string_key_lookup_def)
  qed
  show "string_keys_ht st' h = Some k0" if old: "string_keys_ht st h = Some k0"
  proof (cases "string_keys_ht st (H s)")
    case None
    with assms have "string_key_create H s st = Inr (k, st')"
      by (simp add: string_key_def string_key_lookup_def)
    from string_key_create_result(2) [OF this] None old show ?thesis by auto
  next
    case (Some k1)
    with assms old show ?thesis by (simp add: string_key_def string_key_lookup_def)
  qed
qed

lemma int_key_result:
  assumes "interner_inv st" and "int_key i st = (k, st')"
  shows "key_id k = i * 2 + 1"
    and "string_keys_ht st' = string_keys_ht st"
    and "interner_inv st'"
proof -
  show "key_id k = i * 2 + 1"
  proof (cases "int_keys_ht st (ucast i)")
    case None
    with assms(2) show ?thesis
      by (auto simp: int_key_def int_key_lookup_def int_key_create_def Let_def)
  next
    case (Some k0)
    with assms(2) have "k = k0" by (simp add: int_key_def int_key_lookup_def)
    with assms(1) Some show ?thesis unfolding interner_inv_def by blast
  qed
  show "string_keys_ht st' = string_keys_ht st"
    using assms(2)
    by (auto simp: int_key_def int_key_lookup_def int_key_create_def Let_def split: option.splits)
  show "interner_inv st'"
  proof (cases "int_keys_ht st (ucast i)")
    case None
    with assms(2) have st': "st' = st\<lparr>int_keys_ht := (int_keys_ht st)(ucast i \<mapsto> Key (i * 2 + 1))\<rparr>"
      by (auto simp: int_key_def int_key_lookup_def int_key_create_def Let_def)
    have "key_id k0 = j * 2 + 1" if "int_keys_ht st' (ucast j) = Some k0" for j :: c_int and k0
    proof (cases "(ucast j :: hash_t) = ucast i")
      case True
      then have "j = i" by (rule ucast_hash_inj)
      with that show ?thesis by (auto simp: st')
    next
      case False
      with that have "int_keys_ht st (ucast j) = Some k0" by (simp add: st')
      with assms(1) show ?thesis unfolding interner_inv_def by blast
    qed
    moreover from assms(1) have
      "0 \<le> sint (n_string_keys_ht st)"
      "\<forall>h k. string_keys_ht st h = Some k \<longrightarrow>
            even (sint (key_id k)) \<and> 2 \<le> sint (key_id k)
            \<and> sint (key_id k) < sint (n_string_keys_ht st) * 2 + 2
            \<and> string_key_names_ht st (scast (key_id k)) \<noteq> None"
      "\<forall>h h' k. string_keys_ht st h = Some k \<longrightarrow> string_keys_ht st h' = Some k \<longrightarrow> h = h'"
      "\<forall>x name. string_key_names_ht st x = Some name \<longrightarrow>
            2 \<le> sint x \<and> sint x < sint (n_string_keys_ht st) * 2 + 2"
      unfolding interner_inv_def by blast+
    ultimately show ?thesis
      unfolding interner_inv_def by (simp add: st')
  next
    case (Some k0)
    with assms show ?thesis by (simp add: int_key_def int_key_lookup_def)
  qed
qed

lemma call_key_inv:
  assumes "interner_inv st" and "call_key H c st = Inr (k, st')"
  shows "interner_inv st'"
proof (cases c)
  case AnyKey with assms show ?thesis by simp
next
  case (IntKey i)
  with assms have "int_key i st = (k, st')" by simp
  from int_key_result(3) [OF assms(1) this] show ?thesis .
next
  case (StringKey s)
  with assms have "string_key H s st = Inr (k, st')" by simp
  from string_key_inv [OF assms(1) this] show ?thesis .
qed

lemma call_key_cached:
  assumes "interner_inv st" and "call_key H c st = Inr (k, st')" and "string_keys_ht st h = Some k0"
  shows "string_keys_ht st' h = Some k0"
proof (cases c)
  case AnyKey with assms show ?thesis by simp
next
  case (IntKey i)
  with assms have "int_key i st = (k, st')" by simp
  from int_key_result(2) [OF assms(1) this] assms(3) show ?thesis by simp
next
  case (StringKey s)
  with assms have "string_key H s st = Inr (k, st')" by simp
  from string_key_cached(2) [OF this assms(3)] show ?thesis .
qed

lemma call_keys_length:
  "call_keys H cs st = Inr (ks, st') \<Longrightarrow> length ks = length cs"
  by (induction cs arbitrary: st ks) (auto split: sum.splits prod.splits)

lemma call_keys_inv:
  "interner_inv st \<Longrightarrow> call_keys H cs st = Inr (ks, st') \<Longrightarrow> interner_inv st'"
proof (induction cs arbitrary: st ks)
  case Nil then show ?case by simp
next
  case (Cons c cs)
  from Cons.prems(2) obtain k st1 ks' where
    1: "call_key H c st = Inr (k, st1)" and 2: "call_keys H cs st1 = Inr (ks', st')"
    by (auto split: sum.splits prod.splits)
  from call_key_inv [OF Cons.prems(1) 1] 2 show ?case by (rule Cons.IH)
qed

lemma call_keys_cached:
  "interner_inv st \<Longrightarrow> call_keys H cs st = Inr (ks, st') \<Longrightarrow> string_keys_ht st h = Some k0
    \<Longrightarrow> string_keys_ht st' h = Some k0"
proof (induction cs arbitrary: st ks)
  case Nil then show ?case by simp
next
  case (Cons c cs)
  from Cons.prems(2) obtain k st1 ks' where
    1: "call_key H c st = Inr (k, st1)" and 2: "call_keys H cs st1 = Inr (ks', st')"
    by (auto split: sum.splits prod.splits)
  from call_key_inv [OF Cons.prems(1) 1] 2 call_key_cached [OF Cons.prems(1) 1 Cons.prems(3)]
  show ?case by (rule Cons.IH)
qed

lemma call_keys_string_final:
  "interner_inv st \<Longrightarrow> call_keys H cs st = Inr (ks, st') \<Longrightarrow> i < length cs
    \<Longrightarrow> cs ! i = StringKey s \<Longrightarrow> string_keys_ht st' (H s) = Some (ks ! i)"
proof (induction cs arbitrary: st ks i)
  case Nil then show ?case by simp
next
  case (Cons c cs)
  from Cons.prems(2) obtain k st1 ks' where
    1: "call_key H c st = Inr (k, st1)" and 2: "call_keys H cs st1 = Inr (ks', st')"
    and ks: "ks = k # ks'"
    by (auto split: sum.splits prod.splits)
  note inv1 = call_key_inv [OF Cons.prems(1) 1]
  show ?case
  proof (cases i)
    case 0
    with Cons.prems(4) 1 have "string_key H s st = Inr (k, st1)" by simp
    from string_key_cached(1) [OF this] have "string_keys_ht st1 (H s) = Some k" .
    from call_keys_cached [OF inv1 2 this] show ?thesis by (simp add: ks 0)
  next
    case (Suc j)
    with Cons.prems(3,4) have "j < length cs" "cs ! j = StringKey s" by simp_all
    from Cons.IH [OF inv1 2 this] show ?thesis by (simp add: ks Suc)
  qed
qed

text \<open>
  A run of calls returns, as long as the counter of string keys stays below \<open>2^30 - 1\<close>,
  the last value whose id fits \<^verbatim>\<open>int\<close>.
\<close>

lemma call_key_returns:
  assumes "interner_inv st" and "sint (n_string_keys_ht st) < 2 ^ 30 - 1"
  shows "\<exists>k st'. call_key H c st = Inr (k, st')
           \<and> sint (n_string_keys_ht st') \<le> sint (n_string_keys_ht st) + 1"
proof (cases c)
  case AnyKey then show ?thesis by simp
next
  case (IntKey i)
  then show ?thesis
    by (auto simp: int_key_def int_key_lookup_def int_key_create_def Let_def split: option.splits)
next
  case (StringKey s)
  show ?thesis
  proof (cases "string_key_lookup H s st")
    case (Some k)
    with StringKey show ?thesis by (simp add: string_key_def)
  next
    case None
    from string_key_create_succeeds [OF assms, of H s] obtain k st'
      where c: "string_key_create H s st = Inr (k, st')" by blast
    from assms(1) have n0: "0 \<le> sint (n_string_keys_ht st)" by (simp add: interner_inv_def)
    from string_key_create_result(2,3) [OF c] sint_counter_Suc [OF n0]
    have "sint (n_string_keys_ht st') = sint (n_string_keys_ht st) + 1" by simp
    with c None StringKey show ?thesis by (simp add: string_key_def)
  qed
qed

lemma call_keys_returns:
  "interner_inv st \<Longrightarrow> sint (n_string_keys_ht st) + int (length cs) \<le> 2 ^ 30 - 1
     \<Longrightarrow> \<exists>ks st'. call_keys H cs st = Inr (ks, st')"
proof (induction cs arbitrary: st)
  case Nil then show ?case by simp
next
  case (Cons c cs)
  from Cons.prems have lt: "sint (n_string_keys_ht st) < 2 ^ 30 - 1" by simp
  from call_key_returns [OF Cons.prems(1) lt, of H c] obtain k st1
    where 1: "call_key H c st = Inr (k, st1)"
      and n: "sint (n_string_keys_ht st1) \<le> sint (n_string_keys_ht st) + 1" by blast
  from call_key_inv [OF Cons.prems(1) 1] have inv1: "interner_inv st1" .
  from n Cons.prems(2) have "sint (n_string_keys_ht st1) + int (length cs) \<le> 2 ^ 30 - 1" by simp
  from Cons.IH [OF inv1 this] obtain ks st' where "call_keys H cs st1 = Inr (ks, st')" by blast
  with 1 show ?case by simp
qed

text \<open>
  Claim C1, as the code has it. In a run of calls from a state the interner can reach,
  two \<^verbatim>\<open>string_key\<close> calls return equal Keys if and only if \<^verbatim>\<open>hash_ll\<close> maps their
  strings to the same hash. So a repeated request for one string always returns the same
  Key, and two strings get different Keys exactly when their hashes differ.
\<close>

theorem string_key_equal_iff_hash_equal:
  assumes "interner_inv st" and "call_keys hash_ll cs st = Inr (ks, st')"
    and "i < length cs" and "j < length cs"
    and "cs ! i = StringKey s1" and "cs ! j = StringKey s2"
  shows "(ks ! i = ks ! j) = (hash_ll s1 = hash_ll s2)"
proof -
  have fi: "string_keys_ht st' (hash_ll s1) = Some (ks ! i)"
    using assms(1,2,3,5) by (rule call_keys_string_final)
  have fj: "string_keys_ht st' (hash_ll s2) = Some (ks ! j)"
    using assms(1,2,4,6) by (rule call_keys_string_final)
  have inv': "interner_inv st'" using assms(1,2) by (rule call_keys_inv)
  show ?thesis
  proof
    assume "ks ! i = ks ! j"
    with fi fj inv' show "hash_ll s1 = hash_ll s2" unfolding interner_inv_def by metis
  next
    assume "hash_ll s1 = hash_ll s2"
    with fi fj show "ks ! i = ks ! j" by simp
  qed
qed

text \<open>There are more strings than 64-bit hashes.\<close>

lemma hash_ll_collision:
  fixes hash_ll :: "string \<Rightarrow> hash_t"
  shows "\<exists>s1 s2. s1 \<noteq> s2 \<and> hash_ll s1 = hash_ll s2"
proof (rule ccontr)
  assume "\<not> (\<exists>s1 s2. s1 \<noteq> s2 \<and> hash_ll s1 = hash_ll s2)"
  then have "inj hash_ll" by (auto simp: inj_on_def)
  moreover have "finite (range hash_ll)" by (rule finite_subset [OF subset_UNIV]) simp
  ultimately have "finite (UNIV :: string set)" by (rule finite_imageD [rotated])
  then show False using infinite_UNIV_listI by blast
qed

lemma string_key_first:
  "\<exists>st1. string_key H s init_interner = Inr (Key 2, st1) \<and> string_keys_ht st1 (H s) = Some (Key 2)"
  by (simp add: string_key_def string_key_lookup_def string_key_create_def init_interner_def
      in_int_range_def Let_def)

text \<open>
  Claim C1 as stated fails: the table is addressed by the 64-bit hash alone and the string
  is never compared. Whatever \<^verbatim>\<open>hash_ll\<close> is, two different strings share a hash, and
  the second of them is given the Key of the first.
\<close>

theorem string_key_distinct_strings_same_key:
  "\<forall>hash_ll. \<exists>s1 s2 k st1 st2. s1 \<noteq> s2
     \<and> string_key hash_ll s1 init_interner = Inr (k, st1)
     \<and> string_key hash_ll s2 st1 = Inr (k, st2)"
proof
  fix hash_ll :: "string \<Rightarrow> hash_t"
  obtain s1 s2 where ne: "s1 \<noteq> s2" and eq: "hash_ll s1 = hash_ll s2"
    using hash_ll_collision [of hash_ll] by blast
  obtain st1 where 1: "string_key hash_ll s1 init_interner = Inr (Key 2, st1)"
    and c: "string_keys_ht st1 (hash_ll s1) = Some (Key 2)"
    using string_key_first [of hash_ll s1] by blast
  from c eq have "string_key hash_ll s2 st1 = Inr (Key 2, st1)"
    by (simp add: string_key_def string_key_lookup_def)
  with ne 1 show "\<exists>s1 s2 k st1 st2. s1 \<noteq> s2
     \<and> string_key hash_ll s1 init_interner = Inr (k, st1)
     \<and> string_key hash_ll s2 st1 = Inr (k, st2)" by blast
qed

lemma call_keys_sample:
  "\<exists>st'. call_keys (\<lambda>s. of_nat (length s)) [StringKey ''ab'', StringKey ''c'', StringKey ''ab''] init_interner
     = Inr ([Key 2, Key 4, Key 2], st')"
  by (simp add: string_key_def string_key_lookup_def string_key_create_def init_interner_def
      in_int_range_def Let_def)

theorem string_key_equal_iff_hash_equal_witness:
  "\<exists>ks st'. interner_inv init_interner
     \<and> call_keys (\<lambda>s. of_nat (length s)) [StringKey ''ab'', StringKey ''c'', StringKey ''ab''] init_interner = Inr (ks, st')
     \<and> ks ! 0 = ks ! 2 \<and> ks ! 0 \<noteq> ks ! 1"
proof -
  let ?H = "\<lambda>s :: string. (of_nat (length s) :: hash_t)"
  let ?cs = "[StringKey ''ab'', StringKey ''c'', StringKey ''ab'']"
  obtain st' where run: "call_keys ?H ?cs init_interner = Inr ([Key 2, Key 4, Key 2], st')"
    using call_keys_sample by blast
  have a: "([Key 2, Key 4, Key 2] ! 0 = [Key 2, Key 4, Key 2] ! 2) = (?H ''ab'' = ?H ''ab'')"
    using string_key_equal_iff_hash_equal [OF interner_inv_init run, of 0 2 "''ab''" "''ab''"]
    by simp
  have b: "([Key 2, Key 4, Key 2] ! 0 = [Key 2, Key 4, Key 2] ! 1) = (?H ''ab'' = ?H ''c'')"
    using string_key_equal_iff_hash_equal [OF interner_inv_init run, of 0 1 "''ab''" "''c''"]
    by simp
  from a b run interner_inv_init show ?thesis by auto
qed

lemma call_key_id:
  assumes "interner_inv st" and "call_key H c st = Inr (k, st')"
  shows "(c = AnyKey \<longrightarrow> key_id k = 0)
       \<and> (\<forall>x. c = IntKey x \<longrightarrow> key_id k = x * 2 + 1 \<and> odd (sint (key_id k)))
       \<and> (\<forall>s. c = StringKey s \<longrightarrow> even (sint (key_id k)) \<and> 2 \<le> sint (key_id k))"
proof (cases c)
  case AnyKey
  with assms show ?thesis by (auto simp: any_key_def)
next
  case (IntKey i)
  with assms have "int_key i st = (k, st')" by simp
  from int_key_result(1) [OF assms(1) this] IntKey show ?thesis
    by (simp add: even_sint_iff)
next
  case (StringKey s)
  with assms have sk: "string_key H s st = Inr (k, st')" by simp
  from string_key_inv [OF assms(1) sk] string_key_cached(1) [OF sk]
  have "even (sint (key_id k)) \<and> 2 \<le> sint (key_id k)"
    unfolding interner_inv_def by blast
  with StringKey show ?thesis by simp
qed

lemma call_keys_nth:
  "interner_inv st \<Longrightarrow> call_keys H cs st = Inr (ks, st') \<Longrightarrow> i < length cs
    \<Longrightarrow> \<exists>sti sti'. interner_inv sti \<and> call_key H (cs ! i) sti = Inr (ks ! i, sti')"
proof (induction cs arbitrary: st ks i)
  case Nil then show ?case by simp
next
  case (Cons c cs)
  from Cons.prems(2) obtain k st1 ks' where
    1: "call_key H c st = Inr (k, st1)" and 2: "call_keys H cs st1 = Inr (ks', st')"
    and ks: "ks = k # ks'"
    by (auto split: sum.splits prod.splits)
  show ?case
  proof (cases i)
    case 0
    with Cons.prems(1) 1 ks show ?thesis by auto
  next
    case (Suc j)
    with Cons.prems(3) have "j < length cs" by simp
    from Cons.IH [OF call_key_inv [OF Cons.prems(1) 1] 2 this] show ?thesis
      by (simp add: ks Suc)
  qed
qed

text \<open>
  Claim C2. \<^verbatim>\<open>any_key()\<close> has id 0. In a run of calls from a state the interner can reach,
  an \<^verbatim>\<open>int_key(x)\<close> call returns the odd id \<open>x * 2 + 1\<close> (computed in 32 bits, as the
  source's \<^verbatim>\<open>unsigned int\<close> does), a \<^verbatim>\<open>string_key\<close> call returns an even id of at
  least 2, a newly created string key has the id \<open>counter * 2 + 2\<close> and advances the
  counter by one, and two calls of different operations never return the same id.
\<close>

theorem key_id_spaces_disjoint:
  assumes "interner_inv st" and "call_keys hash_ll cs st = Inr (ks, st')"
    and "i < length cs" and "j < length cs"
  shows "key_id any_key = 0
       \<and> (cs ! i = AnyKey \<longrightarrow> key_id (ks ! i) = 0)
       \<and> (\<forall>x. cs ! i = IntKey x \<longrightarrow> key_id (ks ! i) = x * 2 + 1 \<and> odd (sint (key_id (ks ! i))))
       \<and> (\<forall>s. cs ! i = StringKey s \<longrightarrow> even (sint (key_id (ks ! i))) \<and> 2 \<le> sint (key_id (ks ! i)))
       \<and> (\<forall>s k st1. string_key_lookup hash_ll s st = None \<and> string_key hash_ll s st = Inr (k, st1)
            \<longrightarrow> sint (key_id k) = sint (n_string_keys_ht st) * 2 + 2
              \<and> n_string_keys_ht st1 = n_string_keys_ht st + 1)
       \<and> (call_kind (cs ! i) \<noteq> call_kind (cs ! j) \<longrightarrow> key_id (ks ! i) \<noteq> key_id (ks ! j))"
proof -
  obtain sti sti' where i: "interner_inv sti" "call_key hash_ll (cs ! i) sti = Inr (ks ! i, sti')"
    using call_keys_nth [OF assms(1,2,3)] by blast
  obtain stj stj' where j: "interner_inv stj" "call_key hash_ll (cs ! j) stj = Inr (ks ! j, stj')"
    using call_keys_nth [OF assms(1,2,4)] by blast
  note pi = call_key_id [OF i]
  note pj = call_key_id [OF j]
  have fresh: "sint (key_id k) = sint (n_string_keys_ht st) * 2 + 2
              \<and> n_string_keys_ht st1 = n_string_keys_ht st + 1"
    if "string_key_lookup hash_ll s st = None" "string_key hash_ll s st = Inr (k, st1)" for s k st1
  proof -
    from that have c: "string_key_create hash_ll s st = Inr (k, st1)"
      by (simp add: string_key_def)
    from string_key_create_result(1,2) [OF c] show ?thesis by simp
  qed
  have disj: "key_id (ks ! i) \<noteq> key_id (ks ! j)" if "call_kind (cs ! i) \<noteq> call_kind (cs ! j)"
  proof
    assume eq: "key_id (ks ! i) = key_id (ks ! j)"
    show False
    proof (cases "cs ! i")
      case AnyKey
      with pi have zi: "key_id (ks ! i) = 0" by simp
      from that AnyKey pj eq zi show False
        by (cases "cs ! j") (auto simp: call_kind_def)
    next
      case (IntKey x)
      with pi have oi: "odd (sint (key_id (ks ! i)))" by blast
      from that IntKey pj eq oi show False
        by (cases "cs ! j") (auto simp: call_kind_def)
    next
      case (StringKey s)
      with pi have ei: "even (sint (key_id (ks ! i)))" "2 \<le> sint (key_id (ks ! i))" by blast+
      from that StringKey pj eq ei show False
        by (cases "cs ! j") (auto simp: call_kind_def)
    qed
  qed
  from pi fresh disj show ?thesis by (auto simp: any_key_def even_sint_iff)
qed

lemma call_keys_sample2:
  "\<exists>st'. call_keys (\<lambda>s. of_nat (length s)) [AnyKey, IntKey 5, StringKey ''foo''] init_interner
     = Inr ([Key 0, Key 11, Key 2], st')"
  by (simp add: string_key_def string_key_lookup_def string_key_create_def init_interner_def
      int_key_def int_key_lookup_def int_key_create_def any_key_def
      in_int_range_def Let_def)


theorem key_id_spaces_disjoint_witness:
  "\<exists>ks st'. interner_inv init_interner
     \<and> call_keys (\<lambda>s. of_nat (length s)) [AnyKey, IntKey 5, StringKey ''foo''] init_interner = Inr (ks, st')
     \<and> key_id (ks ! 0) = 0 \<and> key_id (ks ! 1) = 11 \<and> key_id (ks ! 2) = 2
     \<and> key_id (ks ! 1) \<noteq> key_id (ks ! 2) \<and> key_id (ks ! 0) \<noteq> key_id (ks ! 1)"
proof -
  let ?H = "\<lambda>s :: string. (of_nat (length s) :: hash_t)"
  let ?cs = "[AnyKey, IntKey 5, StringKey ''foo'']"
  obtain st' where run: "call_keys ?H ?cs init_interner = Inr ([Key 0, Key 11, Key 2], st')"
    using call_keys_sample2 by blast
  have a: "key_id ([Key 0, Key 11, Key 2] ! 1) \<noteq> key_id ([Key 0, Key 11, Key 2] ! 2)"
    using key_id_spaces_disjoint [OF interner_inv_init run, of 1 2]
    by (simp add: call_kind_def)
  have b: "key_id ([Key 0, Key 11, Key 2] ! 0) \<noteq> key_id ([Key 0, Key 11, Key 2] ! 1)"
    using key_id_spaces_disjoint [OF interner_inv_init run, of 0 1]
    by (simp add: call_kind_def)
  from a b run interner_inv_init show ?thesis by auto
qed













subsection \<open>Facts about the flag setters\<close>

lemma or_flag_simps:
  "current_generation (or_flag F a st) = current_generation st"
  "length (nodes (or_flag F a st)) = length (nodes st)"
  "a < length (nodes st) \<Longrightarrow>
     nodes (or_flag F a st) ! a = (nodes st ! a)\<lparr>flags := flags (nodes st ! a) OR flag_bit F\<rparr>"
  "b \<noteq> a \<Longrightarrow> nodes (or_flag F a st) ! b = nodes st ! b"
  by (simp_all add: or_flag_def)

lemma on_changed_simps:
  "current_generation (on_changed a st) = current_generation st"
  "length (nodes (on_changed a st)) = length (nodes st)"
  "a < length (nodes st) \<Longrightarrow>
     nodes (on_changed a st) ! a = (nodes st ! a)\<lparr>generation := current_generation st\<rparr>"
  "b \<noteq> a \<Longrightarrow> nodes (on_changed a st) ! b = nodes st ! b"
  by (simp_all add: on_changed_def)

lemma error_only_refl: "error_only st st"
  by (simp add: error_only_def)

lemma error_only_or_flag: "error_only st (or_flag error_flag_e a st)"
  unfolding error_only_def
proof (intro conjI allI impI)
  fix b assume "b < length (nodes st)"
  then show "nodes (or_flag error_flag_e a st) ! b = nodes st ! b
     \<or> nodes (or_flag error_flag_e a st) ! b
         = (nodes st ! b)\<lparr>flags := flags (nodes st ! b) OR flag_bit error_flag_e\<rparr>"
    by (cases "b = a") (simp_all only: or_flag_simps simp_thms)
qed (simp_all only: or_flag_simps)

lemma error_only_trans:
  assumes "error_only st st'" and "error_only st' st''"
  shows "error_only st st''"
  unfolding error_only_def
proof (intro conjI allI impI)
  from assms show "current_generation st'' = current_generation st"
    by (simp add: error_only_def)
  from assms show "length (nodes st'') = length (nodes st)"
    by (simp add: error_only_def)
  fix b assume b: "b < length (nodes st)"
  let ?e = "\<lambda>n :: ('a, 'b) TypeData. n\<lparr>flags := flags n OR flag_bit error_flag_e\<rparr>"
  from assms(1) b have 1: "nodes st' ! b = nodes st ! b \<or> nodes st' ! b = ?e (nodes st ! b)"
    by (simp add: error_only_def)
  from assms b have 2: "nodes st'' ! b = nodes st' ! b \<or> nodes st'' ! b = ?e (nodes st' ! b)"
    by (simp add: error_only_def)
  have idem: "?e (?e n) = ?e n" for n by simp
  from 1 2 idem show "nodes st'' ! b = nodes st ! b \<or> nodes st'' ! b = ?e (nodes st ! b)"
    by metis
qed

lemma set_flag_error_False: "set_flag_error proxy False this st = Inr st"
  by (simp add: set_flag_error.simps [of proxy False this st])

lemma set_flag_error_null:
  "\<not> this < length (nodes st) \<Longrightarrow> set_flag_error proxy True this st = Inl NullDeref"
  by (simp add: set_flag_error.simps [of proxy True this st])

lemma set_flag_error_already:
  "this < length (nodes st) \<Longrightarrow> get_flag error_flag_e (nodes st ! this)
     \<Longrightarrow> set_flag_error proxy True this st = Inr st"
  by (simp add: set_flag_error.simps [of proxy True this st])

lemma set_flag_error_fresh:
  "this < length (nodes st) \<Longrightarrow> \<not> get_flag error_flag_e (nodes st ! this)
     \<Longrightarrow> set_flag_error proxy True this st =
         (case parent (nodes st ! this) of
            None \<Rightarrow> Inr (or_flag error_flag_e this st)
          | Some p \<Rightarrow>
              if proxy (or_flag error_flag_e this st) this
              then set_flag_error proxy True p (or_flag error_flag_e this st)
              else Inr (or_flag error_flag_e this st))"
  by (simp add: set_flag_error.simps [of proxy True this st])

lemma set_flag_error_error_only:
  "set_flag_error proxy f this st = Inr st' \<Longrightarrow> error_only st st'"
proof (induction proxy f this st arbitrary: st' rule: set_flag_error.induct)
  case (1 proxy f this st)
  let ?st1 = "or_flag error_flag_e this st"
  show ?case
  proof (cases f)
    case False
    with "1.prems" show ?thesis by (simp add: set_flag_error_False error_only_refl)
  next
    case f: True
    show ?thesis
    proof (cases "this < length (nodes st)")
      case False
      with f "1.prems" show ?thesis by (simp add: set_flag_error_null)
    next
      case len: True
      show ?thesis
      proof (cases "get_flag error_flag_e (nodes st ! this)")
        case True
        with f len "1.prems" show ?thesis by (simp add: set_flag_error_already error_only_refl)
      next
        case unset: False
        note eq = set_flag_error_fresh [OF len unset, of proxy]
        show ?thesis
        proof (cases "parent (nodes st ! this)")
          case None
          with f "1.prems" eq have "st' = ?st1" by simp
          then show ?thesis by (simp add: error_only_or_flag)
        next
          case (Some p)
          show ?thesis
          proof (cases "proxy ?st1 this")
            case False
            with f Some "1.prems" eq have "st' = ?st1" by simp
            then show ?thesis by (simp add: error_only_or_flag)
          next
            case px: True
            with f Some "1.prems" eq have r: "set_flag_error proxy True p ?st1 = Inr st'"
              by simp
            have "error_only ?st1 st'"
              using f len unset Some px r by (intro "1.IH") simp_all
            with error_only_or_flag show ?thesis by (rule error_only_trans)
          qed
        qed
      qed
    qed
  qed
qed


lemma error_only_flags_kept: "error_only st st' \<Longrightarrow> flags_kept st st'"
  unfolding error_only_def flags_kept_def
proof (intro conjI allI impI)
  assume a: "current_generation st' = current_generation st \<and>
    length (nodes st') = length (nodes st) \<and>
    (\<forall>b<length (nodes st).
        nodes st' ! b = nodes st ! b \<or>
        nodes st' ! b = (nodes st ! b)\<lparr>flags := flags (nodes st ! b) OR flag_bit error_flag_e\<rparr>)"
  then show "length (nodes st') = length (nodes st)" by simp
  fix b F assume b: "b < length (nodes st)" and g: "get_flag F (nodes st ! b)"
  from a b have "nodes st' ! b = nodes st ! b \<or>
        nodes st' ! b = (nodes st ! b)\<lparr>flags := flags (nodes st ! b) OR flag_bit error_flag_e\<rparr>"
    by simp
  with g show "get_flag F (nodes st' ! b)" by (auto simp only: get_flag_or)
qed

lemma flags_kept_refl: "flags_kept st st"
  by (simp add: flags_kept_def)

lemma flags_kept_trans: "flags_kept st st' \<Longrightarrow> flags_kept st' st'' \<Longrightarrow> flags_kept st st''"
  by (simp add: flags_kept_def)

lemma set_flag_generic_new:
  assumes "this < length (nodes st)" and "\<not> get_flag FLAG (nodes st ! this)"
  shows "set_flag_generic FLAG True this st = Inr (on_changed this (or_flag FLAG this st))"
  using assms by (simp add: set_flag_generic_def)

lemma new_flag_node:
  assumes "this < length (nodes st)"
  shows "nodes (on_changed this (or_flag FLAG this st)) ! this
         = (nodes st ! this)\<lparr>flags := flags (nodes st ! this) OR flag_bit FLAG,
                              generation := current_generation st\<rparr>"
    and "b \<noteq> this \<Longrightarrow> nodes (on_changed this (or_flag FLAG this st)) ! b = nodes st ! b"
    and "length (nodes (on_changed this (or_flag FLAG this st))) = length (nodes st)"
    and "current_generation (on_changed this (or_flag FLAG this st)) = current_generation st"
  using assms by (simp_all add: on_changed_def or_flag_def)

lemma set_flag_generic_flags_kept:
  assumes "set_flag_generic FLAG f this st = Inr st'"
  shows "flags_kept st st'"
proof (cases "this < length (nodes st) \<and> \<not> get_flag FLAG (nodes st ! this) \<and> f")
  case False
  with assms have "st' = st"
    by (auto simp: set_flag_generic_def Let_def split: if_splits)
  then show ?thesis by (simp add: flags_kept_refl)
next
  case True
  with assms have st': "st' = on_changed this (or_flag FLAG this st)"
    by (simp add: set_flag_generic_new)
  from True have len: "this < length (nodes st)" by simp
  show ?thesis
    unfolding flags_kept_def st'
  proof (intro conjI allI impI)
    show "length (nodes (on_changed this (or_flag FLAG this st))) = length (nodes st)"
      by (rule new_flag_node(3) [OF len])
    fix b F assume "b < length (nodes st)" and g: "get_flag F (nodes st ! b)"
    show "get_flag F (nodes (on_changed this (or_flag FLAG this st)) ! b)"
    proof (cases "b = this")
      case True
      have "get_flag F ((nodes st ! this)\<lparr>flags := flags (nodes st ! this) OR flag_bit FLAG\<rparr>)"
        using g True by (simp only: get_flag_or) simp
      then show ?thesis by (simp add: True new_flag_node(1) [OF len] get_flag_def)
    next
      case False
      with g show ?thesis by (simp add: new_flag_node(2) [OF len])
    qed
  qed
qed

lemma set_flag_flags_kept:
  "set_flag proxy FLAG f this st = Inr st' \<Longrightarrow> flags_kept st st'"
  by (auto simp: set_flag_def set_flag_generic_flags_kept
      dest: set_flag_error_error_only error_only_flags_kept split: if_splits)

lemma apply_ops_flags_kept:
  "apply_ops proxy ops st = Inr st' \<Longrightarrow> flags_kept st st'"
proof (induction ops arbitrary: st)
  case Nil then show ?case by (simp add: flags_kept_refl)
next
  case (Cons op ops)
  obtain FLAG f this where op: "op = SetFlag FLAG f this" by (cases op)
  from Cons.prems obtain st1 where 1: "set_flag proxy FLAG f this st = Inr st1"
    and 2: "apply_ops proxy ops st1 = Inr st'"
    by (auto simp: op split: sum.splits)
  from set_flag_flags_kept [OF 1] Cons.IH [OF 2] show ?case by (rule flags_kept_trans)
qed

text \<open>
  Claim C3. Once a flag of a node is set, it is set after every sequence of setter calls
  that returns (this holds for all four flags, on every node of the heap), and a call
  that would clear a set write, read or or_false flag fails the assertion.
\<close>

theorem flags_never_cleared:
  assumes "this < length (nodes st)" and "get_flag FLAG (nodes st ! this)"
  shows "(apply_ops proxy ops st = Inr st'
            \<longrightarrow> this < length (nodes st') \<and> get_flag FLAG (nodes st' ! this))
       \<and> (FLAG \<noteq> error_flag_e \<longrightarrow> set_flag proxy FLAG False this st = Inl AssertFailed)"
proof (intro conjI impI)
  assume "apply_ops proxy ops st = Inr st'"
  then have "flags_kept st st'" by (rule apply_ops_flags_kept)
  with assms show "this < length (nodes st')" "get_flag FLAG (nodes st' ! this)"
    by (simp_all add: flags_kept_def)
next
  assume "FLAG \<noteq> error_flag_e"
  with assms show "set_flag proxy FLAG False this st = Inl AssertFailed"
    by (simp add: set_flag_def set_flag_generic_def)
qed

text \<open>
  Claim C10. \<^verbatim>\<open>set_error_flag(false)\<close> returns the state it was given, whatever the node
  and whether or not its error flag is set: no flag is cleared, no assertion fails and no
  generation stamp moves.
\<close>

theorem set_error_flag_false_is_noop:
  "set_flag proxy error_flag_e False this st = Inr st"
  by (simp add: set_flag_def set_flag_error_False)

lemma parents_valid_or_flag: "parents_valid st \<Longrightarrow> parents_valid (or_flag F a st)"
  unfolding parents_valid_def
proof (intro allI impI)
  fix b p
  assume pv: "\<forall>b<length (nodes st). \<forall>p. parent (nodes st ! b) = Some p \<longrightarrow> p < length (nodes st)"
    and b: "b < length (nodes (or_flag F a st))"
    and p: "parent (nodes (or_flag F a st) ! b) = Some p"
  from b have b': "b < length (nodes st)" by (simp add: or_flag_simps)
  have "parent (nodes (or_flag F a st) ! b) = parent (nodes st ! b)"
    using b' by (cases "b = a") (simp_all add: or_flag_simps)
  with p pv b' show "p < length (nodes (or_flag F a st))" by (simp add: or_flag_simps)
qed

text \<open>
  The specialisation always returns: with no dangling parent pointer it ends without an
  error, on cyclic parent chains too.
\<close>

lemma set_flag_error_returns:
  "parents_valid st \<Longrightarrow> this < length (nodes st)
     \<Longrightarrow> \<exists>st'. set_flag_error proxy f this st = Inr st'"
proof (induction proxy f this st rule: set_flag_error.induct)
  case (1 proxy f this st)
  let ?st1 = "or_flag error_flag_e this st"
  note len = "1.prems"(2)
  show ?case
  proof (cases f)
    case False
    then show ?thesis by (simp add: set_flag_error_False)
  next
    case f: True
    show ?thesis
    proof (cases "get_flag error_flag_e (nodes st ! this)")
      case True
      with f len show ?thesis by (simp add: set_flag_error_already)
    next
      case unset: False
      note eq = set_flag_error_fresh [OF len unset, of proxy]
      show ?thesis
      proof (cases "parent (nodes st ! this)")
        case None
        with f eq show ?thesis by simp
      next
        case (Some p)
        show ?thesis
        proof (cases "proxy ?st1 this")
          case False
          with f Some eq show ?thesis by simp
        next
          case px: True
          from "1.prems" Some have p: "p < length (nodes ?st1)"
            by (simp add: parents_valid_def or_flag_simps)
          have "\<exists>st'. set_flag_error proxy True p ?st1 = Inr st'"
            using f len unset Some px parents_valid_or_flag [OF "1.prems"(1)] p
            by (intro "1.IH") simp_all
          with f Some px eq show ?thesis by simp
        qed
      qed
    qed
  qed
qed

lemma set_flag_error_sets:
  assumes "set_flag_error proxy True this st = Inr st'"
  shows "this < length (nodes st') \<and> get_flag error_flag_e (nodes st' ! this)"
proof -
  have len: "this < length (nodes st)"
    using assms by (cases "this < length (nodes st)") (simp_all add: set_flag_error_null)
  show ?thesis
  proof (cases "get_flag error_flag_e (nodes st ! this)")
    case True
    with len assms show ?thesis by (simp add: set_flag_error_already)
  next
    case False
    let ?st1 = "or_flag error_flag_e this st"
    have 1: "get_flag error_flag_e (nodes ?st1 ! this)"
      by (simp only: or_flag_simps(3) [OF len] get_flag_or) simp
    from len have l1: "this < length (nodes ?st1)" by (simp add: or_flag_simps)
    have "error_only ?st1 st'"
    proof (cases "parent (nodes st ! this)")
      case None
      with assms set_flag_error_fresh [OF len False, of proxy] show ?thesis
        by (simp add: error_only_refl)
    next
      case (Some p)
      with assms set_flag_error_fresh [OF len False, of proxy] show ?thesis
        by (cases "proxy ?st1 this") (simp_all add: error_only_refl set_flag_error_error_only)
    qed
    then have "flags_kept ?st1 st'" by (rule error_only_flags_kept)
    with 1 l1 show ?thesis by (simp add: flags_kept_def)
  qed
qed

text \<open>
  Claim C7. Setting the error flag of a node that did not have it sets it on that node.
  When the node has a parent and \<^verbatim>\<open>should_proxy_error_flag_to_parent()\<close> holds, the rest
  of the call is the parent's \<^verbatim>\<open>set_flag<error_flag_e>(true)\<close>, after which the parent
  has the flag. When there is no parent or the predicate does not hold, the result is the
  old heap with this one bit written, and every other node is what it was.
\<close>

theorem error_flag_proxied_to_parent:
  assumes "this < length (nodes st)" and "\<not> get_flag error_flag_e (nodes st ! this)"
    and "set_flag proxy error_flag_e True this st = Inr st'"
  shows "get_flag error_flag_e (nodes st' ! this)
       \<and> (\<forall>p. parent (nodes st ! this) = Some p \<and> proxy (or_flag error_flag_e this st) this
            \<longrightarrow> set_flag proxy error_flag_e True p (or_flag error_flag_e this st) = Inr st'
              \<and> p < length (nodes st') \<and> get_flag error_flag_e (nodes st' ! p))
       \<and> (parent (nodes st ! this) = None \<or> \<not> proxy (or_flag error_flag_e this st) this
            \<longrightarrow> st' = or_flag error_flag_e this st
              \<and> (\<forall>b. b \<noteq> this \<longrightarrow> nodes st' ! b = nodes st ! b))"
proof -
  let ?st1 = "or_flag error_flag_e this st"
  from assms(3) have r: "set_flag_error proxy True this st = Inr st'" by (simp add: set_flag_def)
  note eq = set_flag_error_fresh [OF assms(1,2), of proxy]
  from set_flag_error_sets [OF r] have a: "get_flag error_flag_e (nodes st' ! this)" by simp
  have b: "set_flag proxy error_flag_e True p ?st1 = Inr st'
              \<and> p < length (nodes st') \<and> get_flag error_flag_e (nodes st' ! p)"
    if "parent (nodes st ! this) = Some p \<and> proxy ?st1 this" for p
  proof -
    from that r eq have rp: "set_flag_error proxy True p ?st1 = Inr st'" by simp
    from set_flag_error_sets [OF rp] rp show ?thesis by (simp add: set_flag_def)
  qed
  have c: "st' = ?st1 \<and> (\<forall>b. b \<noteq> this \<longrightarrow> nodes st' ! b = nodes st ! b)"
    if "parent (nodes st ! this) = None \<or> \<not> proxy ?st1 this"
  proof -
    from that r eq have "st' = ?st1" by (cases "parent (nodes st ! this)") auto
    then show ?thesis by (simp add: or_flag_simps)
  qed
  from a b c show ?thesis by blast
qed

lemma two_node_heap_error_proxied:
  "set_flag (\<lambda>_ _. True) error_flag_e True 0 two_node_heap =
     Inr (two_node_heap\<lparr>nodes := [(leaf_node (Some 1))\<lparr>flags := 8\<rparr>, (leaf_node None)\<lparr>flags := 8\<rparr>]\<rparr>)"
  by (simp add: set_flag_def set_flag_error.simps two_node_heap_def leaf_node_def or_flag_def
      get_flag_def)

lemma two_node_heap_error_kept:
  "set_flag (\<lambda>_ _. False) error_flag_e True 0 two_node_heap =
     Inr (two_node_heap\<lparr>nodes := [(leaf_node (Some 1))\<lparr>flags := 8\<rparr>, leaf_node None]\<rparr>)"
  by (simp add: set_flag_def set_flag_error.simps two_node_heap_def leaf_node_def or_flag_def
      get_flag_def)

lemma two_node_heap_write:
  "set_flag proxy write_flag_e True 0 two_node_heap =
     Inr (two_node_heap\<lparr>nodes := [(leaf_node (Some 1))\<lparr>flags := 1, generation := 5\<rparr>, leaf_node None]\<rparr>)"
  by (simp add: set_flag_def set_flag_generic_def two_node_heap_def leaf_node_def or_flag_def
      on_changed_def get_flag_def)


lemma error_only_generation:
  "error_only st st' \<Longrightarrow> b < length (nodes st)
     \<Longrightarrow> generation (nodes st' ! b) = generation (nodes st ! b)"
  by (auto simp: error_only_def)

lemma set_flag_generic_cases:
  assumes "this < length (nodes st)" and "set_flag_generic FLAG f this st = Inr st'"
  shows "(\<not> get_flag FLAG (nodes st ! this) \<and> f \<longrightarrow> st' = on_changed this (or_flag FLAG this st))
       \<and> (get_flag FLAG (nodes st ! this) \<or> \<not> f \<longrightarrow> st' = st)"
  using assms by (auto simp: set_flag_generic_def Let_def split: if_splits)

text \<open>
  What the setters do to the generation stamps. The primary template, when it sets a flag
  that was not set, changes the node and moves its stamp to the current generation;
  otherwise it returns the state unchanged; in both cases no other node changes. The
  specialisation for the error flag changes no stamp. If no stamp is ahead of the current
  generation, no stamp decreases.
\<close>

lemma set_flag_stamps:
  assumes "this < length (nodes st)" and "set_flag proxy FLAG f this st = Inr st'"
  shows "(FLAG \<noteq> error_flag_e \<and> \<not> get_flag FLAG (nodes st ! this) \<and> f
            \<longrightarrow> st' \<noteq> st \<and> generation (nodes st' ! this) = current_generation st)
       \<and> (FLAG \<noteq> error_flag_e \<and> (get_flag FLAG (nodes st ! this) \<or> \<not> f) \<longrightarrow> st' = st)
       \<and> (FLAG \<noteq> error_flag_e \<longrightarrow> (\<forall>b. b \<noteq> this \<longrightarrow> nodes st' ! b = nodes st ! b))
       \<and> (FLAG = error_flag_e
            \<longrightarrow> (\<forall>b < length (nodes st). generation (nodes st' ! b) = generation (nodes st ! b)))
       \<and> ((\<forall>b < length (nodes st). generation (nodes st ! b) \<le> current_generation st)
            \<longrightarrow> (\<forall>b < length (nodes st). generation (nodes st ! b) \<le> generation (nodes st' ! b)))"
proof -
  let ?new = "on_changed this (or_flag FLAG this st)"
  note nn = new_flag_node [OF assms(1), where FLAG = FLAG]
  have gen: "set_flag_generic FLAG f this st = Inr st'" if "FLAG \<noteq> error_flag_e"
    using that assms(2) by (simp add: set_flag_def)
  have err: "error_only st st'" if "FLAG = error_flag_e"
    using that assms(2) by (simp add: set_flag_def set_flag_error_error_only)
  have 1: "st' \<noteq> st \<and> generation (nodes st' ! this) = current_generation st"
    if h: "FLAG \<noteq> error_flag_e \<and> \<not> get_flag FLAG (nodes st ! this) \<and> f"
  proof -
    from h set_flag_generic_cases [OF assms(1) gen] have st': "st' = ?new" by simp
    have "get_flag FLAG ((nodes st ! this)\<lparr>flags := flags (nodes st ! this) OR flag_bit FLAG\<rparr>)"
      by (simp only: get_flag_or) simp
    then have "get_flag FLAG (nodes ?new ! this)" by (simp add: nn(1) get_flag_def)
    with h have "nodes ?new ! this \<noteq> nodes st ! this" by auto
    then have "?new \<noteq> st" by auto
    then show ?thesis by (simp add: st' nn(1))
  qed
  have 2: "st' = st" if "FLAG \<noteq> error_flag_e \<and> (get_flag FLAG (nodes st ! this) \<or> \<not> f)"
    using that set_flag_generic_cases [OF assms(1) gen] by blast
  have 3: "nodes st' ! b = nodes st ! b" if "FLAG \<noteq> error_flag_e" "b \<noteq> this" for b
  proof (cases "\<not> get_flag FLAG (nodes st ! this) \<and> f")
    case True
    with that set_flag_generic_cases [OF assms(1) gen] have "st' = ?new" by simp
    with that(2) show ?thesis by (simp add: nn(2))
  next
    case False
    with that 2 show ?thesis by auto
  qed
  have 4: "generation (nodes st' ! b) = generation (nodes st ! b)"
    if "FLAG = error_flag_e" "b < length (nodes st)" for b
    using err [OF that(1)] that(2) by (rule error_only_generation)
  have 5: "generation (nodes st ! b) \<le> generation (nodes st' ! b)"
    if le: "\<forall>b < length (nodes st). generation (nodes st ! b) \<le> current_generation st"
      and b: "b < length (nodes st)" for b
  proof (cases "FLAG = error_flag_e")
    case True
    with 4 b show ?thesis by simp
  next
    case ne: False
    show ?thesis
    proof (cases "b = this")
      case False
      with 3 ne show ?thesis by simp
    next
      case True
      show ?thesis
      proof (cases "\<not> get_flag FLAG (nodes st ! this) \<and> f")
        case True
        with 1 ne have "generation (nodes st' ! this) = current_generation st" by simp
        with le b \<open>b = this\<close> show ?thesis by simp
      next
        case False
        with 2 ne have "st' = st" by blast
        then show ?thesis by simp
      qed
    qed
  qed
  from 1 2 3 4 5 show ?thesis by blast
qed

text \<open>
  Stamps that are not ahead of the current generation stay so under every setter, and
  under every sequence of setters.
\<close>

lemma set_flag_stamps_behind:
  assumes "stamps_behind st" and "set_flag proxy FLAG f this st = Inr st'"
  shows "stamps_behind st'"
proof (cases "FLAG = error_flag_e")
  case True
  with assms(2) have eo: "error_only st st'"
    by (simp add: set_flag_def set_flag_error_error_only)
  then have len: "length (nodes st') = length (nodes st)"
    and cur: "current_generation st' = current_generation st"
    by (simp_all add: error_only_def)
  show ?thesis
    unfolding stamps_behind_def
  proof (intro allI impI)
    fix b assume "b < length (nodes st')"
    with len have b: "b < length (nodes st)" by simp
    from error_only_generation [OF eo b] assms(1) b cur
    show "generation (nodes st' ! b) \<le> current_generation st'"
      by (simp add: stamps_behind_def)
  qed
next
  case False
  with assms(2) have g: "set_flag_generic FLAG f this st = Inr st'" by (simp add: set_flag_def)
  show ?thesis
  proof (cases "this < length (nodes st) \<and> \<not> get_flag FLAG (nodes st ! this) \<and> f")
    case False
    with g have "st' = st" by (auto simp: set_flag_generic_def Let_def split: if_splits)
    with assms(1) show ?thesis by simp
  next
    case True
    then have len: "this < length (nodes st)" by simp
    from True g have st': "st' = on_changed this (or_flag FLAG this st)"
      by (simp add: set_flag_generic_new)
    note nn = new_flag_node [OF len, where FLAG = FLAG]
    show ?thesis
      unfolding stamps_behind_def st'
    proof (intro allI impI)
      fix b assume "b < length (nodes (on_changed this (or_flag FLAG this st)))"
      then have b: "b < length (nodes st)" by (simp add: nn(3))
      show "generation (nodes (on_changed this (or_flag FLAG this st)) ! b)
              \<le> current_generation (on_changed this (or_flag FLAG this st))"
      proof (cases "b = this")
        case True
        then show ?thesis by (simp add: nn(1) nn(4))
      next
        case False
        with assms(1) b show ?thesis by (simp add: nn(2) nn(4) stamps_behind_def)
      qed
    qed
  qed
qed

lemma apply_ops_stamps_behind:
  "stamps_behind st \<Longrightarrow> apply_ops proxy ops st = Inr st' \<Longrightarrow> stamps_behind st'"
proof (induction ops arbitrary: st)
  case Nil then show ?case by simp
next
  case (Cons op ops)
  obtain FLAG f this where op: "op = SetFlag FLAG f this" by (cases op)
  from Cons.prems(2) obtain st1 where 1: "set_flag proxy FLAG f this st = Inr st1"
    and 2: "apply_ops proxy ops st1 = Inr st'"
    by (auto simp: op split: sum.splits)
  from set_flag_stamps_behind [OF Cons.prems(1) 1] 2 show ?case by (rule Cons.IH)
qed

lemma stamps_behind_two_node_heap: "stamps_behind two_node_heap"
  by (simp add: stamps_behind_def two_node_heap_def leaf_node_def less_Suc_eq)

text \<open>
  Claim C4 fails on the code for the error flag. On two fresh nodes at generation 5,
  \<^verbatim>\<open>set_error_flag(true)\<close> on the child sets the error flag of the child and of its
  parent, a change of the observable state of both, and both stamps stay 0: the
  specialisation writes \<^verbatim>\<open>flags_\<close> and never calls \<^verbatim>\<open>on_changed()\<close>. On the same heap
  \<^verbatim>\<open>set_write_flag(true)\<close>, through the primary template, sets the flag and moves the
  stamp of the node to 5.
\<close>

theorem error_flag_set_without_stamp:
  "(\<exists>st'. set_flag (\<lambda>_ _. True) error_flag_e True 0 two_node_heap = Inr st'
     \<and> \<not> get_flag error_flag_e (nodes two_node_heap ! 0)
     \<and> get_flag error_flag_e (nodes st' ! 0)
     \<and> \<not> get_flag error_flag_e (nodes two_node_heap ! 1)
     \<and> get_flag error_flag_e (nodes st' ! 1)
     \<and> current_generation two_node_heap = 5
     \<and> generation (nodes st' ! 0) = 0
     \<and> generation (nodes st' ! 1) = 0)
   \<and> (\<exists>st'. set_flag (\<lambda>_ _. True) write_flag_e True 0 two_node_heap = Inr st'
     \<and> \<not> get_flag write_flag_e (nodes two_node_heap ! 0)
     \<and> get_flag write_flag_e (nodes st' ! 0)
     \<and> generation (nodes st' ! 0) = 5)"
  by (simp add: two_node_heap_error_proxied two_node_heap_write)
     (simp add: two_node_heap_def leaf_node_def get_flag_def)

lemma set_flag_stamps_example:
  "\<exists>st'. set_flag (\<lambda>_ _. True) write_flag_e True 0 two_node_heap = Inr st'
     \<and> st' \<noteq> two_node_heap
     \<and> generation (nodes st' ! 0) = 5
     \<and> nodes st' ! 1 = nodes two_node_heap ! 1
     \<and> generation (nodes two_node_heap ! 0) \<le> generation (nodes st' ! 0)"
proof -
  let ?st' = "two_node_heap\<lparr>nodes := [(leaf_node (Some 1))\<lparr>flags := 1, generation := 5\<rparr>, leaf_node None]\<rparr>"
  have len: "0 < length (nodes two_node_heap)" by (simp add: two_node_heap_def)
  have unset: "\<not> get_flag write_flag_e (nodes two_node_heap ! 0)"
    by (simp add: two_node_heap_def leaf_node_def get_flag_def)
  have cur: "current_generation two_node_heap = 5" by (simp add: two_node_heap_def)
  have le: "\<forall>b < length (nodes two_node_heap).
      generation (nodes two_node_heap ! b) \<le> current_generation two_node_heap"
    by (simp add: two_node_heap_def leaf_node_def less_Suc_eq)
  note t = set_flag_stamps [OF len two_node_heap_write [of "\<lambda>_ _. True"]]
  have h: "write_flag_e \<noteq> error_flag_e \<and> \<not> get_flag write_flag_e (nodes two_node_heap ! 0) \<and> True"
    using unset by simp
  have ne: "(1::nat) \<noteq> 0" "write_flag_e \<noteq> error_flag_e" by simp_all
  from t h have "?st' \<noteq> two_node_heap"
    "generation (nodes ?st' ! 0) = current_generation two_node_heap" by blast+
  with cur have a: "?st' \<noteq> two_node_heap" "generation (nodes ?st' ! 0) = 5" by simp_all
  from t ne have b: "nodes ?st' ! 1 = nodes two_node_heap ! 1" by blast
  from t le len have c: "generation (nodes two_node_heap ! 0) \<le> generation (nodes ?st' ! 0)"
    by blast
  from a b c two_node_heap_write [of "\<lambda>_ _. True"] show ?thesis by blast
qed

theorem error_flag_proxied_to_parent_witness:
  "(\<exists>st'. set_flag (\<lambda>_ _. True) error_flag_e True 0 two_node_heap = Inr st'
      \<and> get_flag error_flag_e (nodes st' ! 0) \<and> get_flag error_flag_e (nodes st' ! 1))
   \<and> (\<exists>st'. set_flag (\<lambda>_ _. False) error_flag_e True 0 two_node_heap = Inr st'
      \<and> get_flag error_flag_e (nodes st' ! 0) \<and> nodes st' ! 1 = nodes two_node_heap ! 1)"
proof -
  have len: "0 < length (nodes two_node_heap)" by (simp add: two_node_heap_def)
  have unset: "\<not> get_flag error_flag_e (nodes two_node_heap ! 0)"
    by (simp add: two_node_heap_def leaf_node_def get_flag_def)
  have par: "parent (nodes two_node_heap ! 0) = Some 1"
    by (simp add: two_node_heap_def leaf_node_def)
  note t = error_flag_proxied_to_parent [OF len unset two_node_heap_error_proxied]
  note f = error_flag_proxied_to_parent [OF len unset two_node_heap_error_kept]
  let ?a = "two_node_heap\<lparr>nodes := [(leaf_node (Some 1))\<lparr>flags := 8\<rparr>, (leaf_node None)\<lparr>flags := 8\<rparr>]\<rparr>"
  let ?b = "two_node_heap\<lparr>nodes := [(leaf_node (Some 1))\<lparr>flags := 8\<rparr>, leaf_node None]\<rparr>"
  have ne: "(1::nat) \<noteq> 0" by simp
  from t par have 1: "get_flag error_flag_e (nodes ?a ! 0)" "get_flag error_flag_e (nodes ?a ! 1)"
    by blast+
  from f ne have 2: "get_flag error_flag_e (nodes ?b ! 0)" "nodes ?b ! 1 = nodes two_node_heap ! 1"
    by blast+
  from 1 2 two_node_heap_error_proxied two_node_heap_error_kept show ?thesis by blast
qed

lemma two_node_heap_ops:
  "apply_ops (\<lambda>_ _. True)
     [SetFlag write_flag_e True 0, SetFlag error_flag_e True 0, SetFlag error_flag_e False 0,
      SetFlag write_flag_e True 0] two_node_heap
   = Inr (two_node_heap\<lparr>nodes := [(leaf_node (Some 1))\<lparr>flags := 9, generation := 5\<rparr>,
                                  (leaf_node None)\<lparr>flags := 8\<rparr>]\<rparr>)"
  by (simp add: set_flag_def set_flag_generic_def set_flag_error.simps two_node_heap_def
      leaf_node_def or_flag_def on_changed_def get_flag_def)

theorem flags_never_cleared_witness:
  "\<exists>st1 st'. set_flag (\<lambda>_ _. True) write_flag_e True 0 two_node_heap = Inr st1
     \<and> get_flag write_flag_e (nodes st1 ! 0)
     \<and> apply_ops (\<lambda>_ _. True) [SetFlag error_flag_e True 0, SetFlag error_flag_e False 0,
          SetFlag write_flag_e True 0] st1 = Inr st'
     \<and> get_flag write_flag_e (nodes st' ! 0)
     \<and> set_flag (\<lambda>_ _. True) write_flag_e False 0 st1 = Inl AssertFailed"
proof -
  let ?P = "\<lambda>(_ :: (nat, nat) type_heap) (_ :: nat). True"
  let ?st1 = "two_node_heap\<lparr>nodes := [(leaf_node (Some 1))\<lparr>flags := 1, generation := 5\<rparr>, leaf_node None]\<rparr>"
  let ?ops = "[SetFlag error_flag_e True 0, SetFlag error_flag_e False 0, SetFlag write_flag_e True 0]"
  let ?st' = "two_node_heap\<lparr>nodes := [(leaf_node (Some 1))\<lparr>flags := 9, generation := 5\<rparr>,
                                  (leaf_node None)\<lparr>flags := 8\<rparr>]\<rparr>"
  have 1: "set_flag ?P write_flag_e True 0 two_node_heap = Inr ?st1" by (rule two_node_heap_write)
  have len: "0 < length (nodes ?st1)" by (simp add: two_node_heap_def)
  have set: "get_flag write_flag_e (nodes ?st1 ! 0)"
    by (simp add: two_node_heap_def leaf_node_def get_flag_def)
  have run: "apply_ops ?P ?ops ?st1 = Inr ?st'"
    using two_node_heap_ops by (simp add: 1)
  note t = flags_never_cleared [OF len set, of ?P ?ops ?st' ]
  from t run have a: "get_flag write_flag_e (nodes ?st' ! 0)" by blast
  from t have b: "set_flag ?P write_flag_e False 0 ?st1 = Inl AssertFailed" by simp
  from 1 set run a b show ?thesis by blast
qed

subsection \<open>Racing creations\<close>

text \<open>
  The two steps of one thread, taken one after the other, are the sequential
  \<^verbatim>\<open>string_key\<close> and \<^verbatim>\<open>int_key\<close>.
\<close>

lemma string_key_two_steps:
  "string_key hash_ll key st = Inr (k, st') \<Longrightarrow>
     run_schedule hash_ll [0, 0] ([StringKeyEntry key], st) = ([Returned k], st')"
  by (auto simp: string_key_def split: option.splits)

lemma int_key_two_steps:
  "int_key key st = (k, st') \<Longrightarrow>
     run_schedule hash_ll [0, 0] ([IntKeyEntry key], st) = ([Returned k], st')"
  by (auto simp: int_key_def split: option.splits)

text \<open>
  Two threads that race to create the integer key of one \<open>i\<close> both write and return a
  Key with the id \<open>i * 2 + 1\<close>.
\<close>

lemma int_key_race_converges:
  "fst (run_schedule hash_ll [0, 1, 0, 1] ([IntKeyEntry i, IntKeyEntry i], init_interner))
     = [Returned (Key (i * 2 + 1)), Returned (Key (i * 2 + 1))]"
  by (simp add: int_key_lookup_def int_key_create_def init_interner_def Let_def)

text \<open>
  Claim C9 fails for \<^verbatim>\<open>string_key\<close>. Two threads ask for the same string on the empty
  interner, and both read the empty node before either takes the lock. The lock is then
  taken twice and the node is not read again under it: the first thread creates and
  returns the Key with id 2, the second creates and returns the Key with id 4 and
  overwrites the cache entry of the first.
\<close>

theorem string_key_race_returns_two_keys:
  "fst (run_schedule hash_ll [0, 1, 0, 1] ([StringKeyEntry s, StringKeyEntry s], init_interner))
     = [Returned (Key 2), Returned (Key 4)]
   \<and> string_keys_ht
        (snd (run_schedule hash_ll [0, 1, 0, 1] ([StringKeyEntry s, StringKeyEntry s], init_interner)))
        (hash_ll s) = Some (Key 4)"
  by (simp add: string_key_lookup_def string_key_create_def init_interner_def in_int_range_def
      Let_def)

subsection \<open>Facts about the join\<close>

lemma erase_keyed_simps:
  "erase_keyed [] = []"
  "erase_keyed ((k, y) # ks) = (k, erase_stamps y) # erase_keyed ks"
  by (simp_all add: erase_keyed_def)

lemma erase_stamps_eq:
  "erase_stamps (TypeNode p c fl g a ks) =
     TypeNode p c fl 0 (map_option erase_stamps a) (erase_keyed ks)"
  by (simp add: erase_keyed_def)

lemma key_less_irrefl: "\<not> key_less k k"
  by (simp add: key_less_def)

lemma key_less_asym: "key_less a b \<Longrightarrow> \<not> key_less b a"
  by (simp add: key_less_def)

lemma key_less_total: "\<not> key_less a b \<Longrightarrow> \<not> key_less b a \<Longrightarrow> a = b"
proof -
  assume "\<not> key_less a b" "\<not> key_less b a"
  then have "sint (key_id a) = sint (key_id b)" by (simp add: key_less_def)
  then have "key_id a = key_id b" by (rule signed_word_eqI)
  then show "a = b" by (simp add: Key.expand)
qed

lemma or_rhs_flags_self: "fl OR rhs_flags save_or_false fl = fl"
  by (simp add: rhs_flags_def bit_eq_iff bit_or_iff bit_and_iff) blast

lemma set_lca_keyed_self:
  "(\<And>k y. (k, y) \<in> set ks \<Longrightarrow> set_lca L cur sof y y = y)
     \<Longrightarrow> set_lca_keyed L cur sof ks ks = ks"
proof (induction ks)
  case Nil then show ?case by simp
next
  case (Cons ky ks)
  obtain k y where ky: "ky = (k, y)" by (cases ky)
  have "set_lca L cur sof y y = y" using Cons.prems [of k y] by (simp add: ky)
  moreover have "set_lca_keyed L cur sof ks ks = ks"
  proof (rule Cons.IH)
    fix k' y' assume "(k', y') \<in> set ks"
    then show "set_lca L cur sof y' y' = y'" using Cons.prems [of k' y'] by simp
  qed
  ultimately show ?case by (simp add: ky key_less_irrefl)
qed

lemma set_lca_self:
  assumes "lattice_ok L"
  shows "set_lca L cur sof x x = x"
proof (induction x)
  case (TypeNode p c fl g a ks)
  have a: "set_lca_any L cur sof a a = a"
  proof (cases a)
    case None then show ?thesis by simp
  next
    case (Some y)
    with TypeNode.IH(1) [of y] show ?thesis by simp
  qed
  have ks: "set_lca_keyed L cur sof ks ks = ks"
  proof (rule set_lca_keyed_self)
    fix k y assume "(k, y) \<in> set ks"
    then show "set_lca L cur sof y y = y"
      using TypeNode.IH(2) [of "(k, y)" y] by simp
  qed
  from assms have "type_lca L p p = p" "class_lca L c c = c" by (simp_all add: lattice_ok_def)
  with a ks show ?case by (simp add: or_rhs_flags_self)
qed


lemma set_lca_keyed_Nil_right: "set_lca_keyed L cur sof xs [] = xs"
  by (cases xs) simp_all

lemma set_lca_keyed_commute:
  assumes "\<And>k x y. (k, x) \<in> set xs \<Longrightarrow>
             erase_stamps (set_lca L cur sof x y) = erase_stamps (set_lca L cur' sof y x)"
  shows "erase_keyed (set_lca_keyed L cur sof xs ys)
       = erase_keyed (set_lca_keyed L cur' sof ys xs)"
  using assms
proof (induction xs arbitrary: ys)
  case Nil
  show ?case by (simp add: set_lca_keyed_Nil_right)
next
  case (Cons kx xs)
  obtain k x where kx: "kx = (k, x)" by (cases kx)
  have elem: "erase_stamps (set_lca L cur sof x y) = erase_stamps (set_lca L cur' sof y x)" for y
    using Cons.prems [of k x y] by (simp add: kx)
  have tail: "erase_keyed (set_lca_keyed L cur sof xs zs)
       = erase_keyed (set_lca_keyed L cur' sof zs xs)" for zs
  proof (rule Cons.IH)
    fix k' x' y' assume "(k', x') \<in> set xs"
    then show "erase_stamps (set_lca L cur sof x' y') = erase_stamps (set_lca L cur' sof y' x')"
      using Cons.prems [of k' x' y'] by simp
  qed
  show ?case
  proof (induction ys)
    case Nil
    show ?case by (simp add: kx)
  next
    case (Cons ky ys)
    obtain k' y where ky: "ky = (k', y)" by (cases ky)
    consider (lt) "key_less k k'" | (gt) "key_less k' k"
      | (eq) "\<not> key_less k k'" "\<not> key_less k' k" by blast
    then show ?case
    proof cases
      case lt
      then have "\<not> key_less k' k" by (rule key_less_asym)
      with lt tail [of "(k', y) # ys"] show ?thesis by (simp add: kx ky erase_keyed_simps)
    next
      case gt
      then have "\<not> key_less k k'" by (rule key_less_asym)
      with gt Cons.IH show ?thesis by (simp add: kx ky erase_keyed_simps)
    next
      case eq
      then have "k = k'" by (rule key_less_total)
      with eq elem [of y] tail [of ys] show ?thesis by (simp add: kx ky erase_keyed_simps)
    qed
  qed
qed

lemma set_lca_commute:
  assumes "lattice_ok L"
  shows "erase_stamps (set_lca L cur True x y) = erase_stamps (set_lca L cur' True y x)"
proof (induction x arbitrary: y)
  case (TypeNode p c fl g a ks)
  obtain p' c' fl' g' a' ks' where y: "y = TypeNode p' c' fl' g' a' ks'" by (cases y)
  have any: "map_option erase_stamps (set_lca_any L cur True a a')
           = map_option erase_stamps (set_lca_any L cur' True a' a)"
  proof (cases a)
    case None then show ?thesis by (cases a') simp_all
  next
    case (Some x)
    with TypeNode.IH(1) [of x] show ?thesis by (cases a') simp_all
  qed
  have keyed: "erase_keyed (set_lca_keyed L cur True ks ks')
             = erase_keyed (set_lca_keyed L cur' True ks' ks)"
  proof (rule set_lca_keyed_commute)
    fix k x z assume "(k, x) \<in> set ks"
    then show "erase_stamps (set_lca L cur True x z) = erase_stamps (set_lca L cur' True z x)"
      using TypeNode.IH(2) [of "(k, x)" x z] by simp
  qed
  from assms have "type_lca L p p' = type_lca L p' p" "class_lca L c c' = class_lca L c' c"
    by (simp_all add: lattice_ok_def)
  with any keyed show ?case
    by (simp add: y Let_def rhs_flags_def or.commute erase_stamps_eq del: erase_stamps.simps)
qed

lemma lattice_ok_max: "lattice_ok max_lattice"
  by (simp add: lattice_ok_def max_lattice_def max.commute)

text \<open>
  Claim C5. Merging a node into itself returns the node unchanged, whatever
  \<open>save_or_false\<close> is. Merging \<open>b\<close> into \<open>a\<close> and \<open>a\<close> into \<open>b\<close> (with the default
  \<open>save_or_false = true\<close>) give the same tag, class, flags and children; only the
  generation stamps may differ.
\<close>

theorem set_lca_idempotent_commutative:
  assumes "lattice_ok L"
  shows "set_lca L cur save_or_false x x = x
       \<and> erase_stamps (set_lca L cur True a b) = erase_stamps (set_lca L cur' True b a)"
  using set_lca_self [OF assms] set_lca_commute [OF assms] by blast

theorem set_lca_idempotent_commutative_witness:
  "lattice_ok max_lattice
   \<and> set_lca max_lattice 7 False
        (TypeNode 1 None 1 0 None [(Key 1, TypeNode 1 None 0 0 None [])])
        (TypeNode 1 None 1 0 None [(Key 1, TypeNode 1 None 0 0 None [])])
      = TypeNode 1 None 1 0 None [(Key 1, TypeNode 1 None 0 0 None [])]
   \<and> erase_stamps (set_lca max_lattice 7 True
        (TypeNode 1 None 1 0 None [(Key 1, TypeNode 1 None 0 0 None [])])
        (TypeNode 2 None 4 0 (Some (TypeNode 3 None 0 0 None []))
           [(Key 1, TypeNode 5 None 0 0 None []), (Key 3, TypeNode 2 None 0 0 None [])]))
      = TypeNode 2 None 5 0 (Some (TypeNode 3 None 0 0 None []))
          [(Key 1, TypeNode 5 None 0 0 None []), (Key 3, TypeNode 2 None 0 0 None [])]
   \<and> erase_stamps (set_lca max_lattice 9 True
        (TypeNode 2 None 4 0 (Some (TypeNode 3 None 0 0 None []))
           [(Key 1, TypeNode 5 None 0 0 None []), (Key 3, TypeNode 2 None 0 0 None [])])
        (TypeNode 1 None 1 0 None [(Key 1, TypeNode 1 None 0 0 None [])]))
      = TypeNode 2 None 5 0 (Some (TypeNode 3 None 0 0 None []))
          [(Key 1, TypeNode 5 None 0 0 None []), (Key 3, TypeNode 2 None 0 0 None [])]"
proof -
  let ?a = "TypeNode 1 None 1 0 None [(Key 1, TypeNode 1 None 0 0 None [])] :: (nat, nat) type_node"
  let ?b = "TypeNode 2 None 4 0 (Some (TypeNode 3 None 0 0 None []))
           [(Key 1, TypeNode 5 None 0 0 None []), (Key 3, TypeNode 2 None 0 0 None [])] :: (nat, nat) type_node"
  note t = set_lca_idempotent_commutative [OF lattice_ok_max, of 7 False ?a ?a ?b 9]
  have ab: "erase_stamps (set_lca max_lattice 7 True ?a ?b)
      = TypeNode 2 None 5 0 (Some (TypeNode 3 None 0 0 None []))
          [(Key 1, TypeNode 5 None 0 0 None []), (Key 3, TypeNode 2 None 0 0 None [])]"
    by (simp add: max_lattice_def rhs_flags_def key_less_def Let_def)
  from t have "set_lca max_lattice 7 False ?a ?a = ?a" by blast
  moreover from t ab have "erase_stamps (set_lca max_lattice 9 True ?b ?a)
      = TypeNode 2 None 5 0 (Some (TypeNode 3 None 0 0 None []))
          [(Key 1, TypeNode 5 None 0 0 None []), (Key 3, TypeNode 2 None 0 0 None [])]"
    by simp
  ultimately show ?thesis using ab lattice_ok_max by blast
qed

text \<open>
  With \<open>save_or_false = false\<close> the or_false flag of the right operand is dropped, and
  the two orders of a merge differ.
\<close>

lemma set_lca_without_or_false_not_commutative:
  "erase_stamps (set_lca max_lattice 0 False (TypeNode 1 None 4 0 None []) (TypeNode 1 None 0 0 None []))
     \<noteq> erase_stamps (set_lca max_lattice 0 False (TypeNode 1 None 0 0 None []) (TypeNode 1 None 4 0 None []))"
  by (simp add: max_lattice_def rhs_flags_def Let_def)

end
